theory Spec2Isabelle
  imports Main "HOL-Library.Word"
begin

section \<open>Data model of nntp/newsrc.c\<close>

text \<open>
  Article numbers are \<^verbatim>\<open>anum_t\<close>, an unsigned int that the source prints and scans
  with \<^verbatim>\<open>%u\<close>: a 32-bit word whose arithmetic wraps.
\<close>

type_synonym anum_t = "32 word"

text \<open>\<^verbatim>\<open>struct NewsrcEntry { anum_t first; anum_t last; }\<close> as the pair (first, last).\<close>

type_synonym NewsrcEntry = "anum_t \<times> anum_t"

text \<open>
  \<^verbatim>\<open>struct NntpMboxData\<close>. The array \<^verbatim>\<open>newsrc_ent\<close> with its length
  \<^verbatim>\<open>newsrc_len\<close> is an optional list: \<open>None\<close> is the NULL pointer (with
  \<^verbatim>\<open>newsrc_len == 0\<close>), and the length of the list is \<^verbatim>\<open>newsrc_len\<close>.
\<close>

record NntpMboxData =
  group :: string
  first_message :: anum_t
  last_message :: anum_t
  last_loaded :: anum_t
  last_cached :: anum_t
  unread :: anum_t
  subscribed :: bool
  deleted :: bool
  allowed :: bool
  newsrc_ent :: "NewsrcEntry list option"

definition newsrc_list :: "NntpMboxData \<Rightarrow> NewsrcEntry list" where
  "newsrc_list mdata = (case newsrc_ent mdata of None \<Rightarrow> [] | Some es \<Rightarrow> es)"

text \<open>
  \<^verbatim>\<open>struct Email\<close>, with the article number that \<^verbatim>\<open>nntp_edata_get\<close> reads
  from the e-mail's private data. Its flag \<^verbatim>\<open>deleted\<close> is \<open>deleted_e\<close> here, the
  name \<open>deleted\<close> being the one of the group's flag.
\<close>

record Email =
  article_num :: anum_t
  read :: bool
  deleted_e :: bool

datatype MailboxType = MUTT_UNKNOWN | MUTT_MBOX | MUTT_NNTP | MUTT_IMAP

text \<open>
  \<^verbatim>\<open>struct Mailbox\<close>: the list \<open>emails\<close> holds the first \<^verbatim>\<open>msg_count\<close>
  entries of the array. The pointer \<^verbatim>\<open>m->mdata\<close> is the position of the group in
  the account's \<^verbatim>\<open>groups_list\<close>; positions there are assigned once and never move.
\<close>

record Mailbox =
  magic :: MailboxType
  emails :: "Email list"
  mdata_ptr :: nat

text \<open>
  \<^verbatim>\<open>struct NntpAccountData\<close>. \<^verbatim>\<open>groups_list\<close> is the array of group pointers
  (an entry may be NULL). \<open>fp_newsrc\<close> says whether the locked handle is open.

  Modelled from the spec: the hash table behind \<^verbatim>\<open>groups_hash\<close> (mutt/hash.h is not
  among the sources) is the name-indexed lookup of the registry, a map from a name to
  the group, here to the group's position.
\<close>

record NntpAccountData =
  groups_hash :: "string \<rightharpoonup> nat"
  groups_list :: "NntpMboxData option list"
  size :: int
  mtime :: int
  newsrc_modified :: bool
  fp_newsrc :: bool

definition mdata_get :: "NntpAccountData \<Rightarrow> nat \<Rightarrow> NntpMboxData option" where
  "mdata_get adata i =
     (if i < length (groups_list adata) then groups_list adata ! i else None)"

definition mdata_set :: "NntpAccountData \<Rightarrow> nat \<Rightarrow> NntpMboxData \<Rightarrow> NntpAccountData" where
  "mdata_set adata i mdata =
     (if i < length (groups_list adata)
      then adata\<lparr>groups_list := (groups_list adata)[i := Some mdata]\<rparr>
      else adata)"

section \<open>Counting unread articles\<close>

text \<open>The loop of \<^verbatim>\<open>nntp_group_unread_stat\<close> over the entries, \<open>u\<close> being the running count.\<close>

fun unread_loop :: "anum_t \<Rightarrow> anum_t \<Rightarrow> NewsrcEntry list \<Rightarrow> anum_t \<Rightarrow> anum_t" where
  "unread_loop fm lm [] u = u"
| "unread_loop fm lm ((f, l) # es) u =
     (let first = (if f < fm then fm else f);
          lst = (if l > lm then lm else l)
      in unread_loop fm lm es (if first \<le> lst then u - (lst - first + 1) else u))"

definition nntp_group_unread_stat :: "NntpMboxData \<Rightarrow> NntpMboxData" where
  "nntp_group_unread_stat mdata =
     (if last_message mdata = 0 \<or> first_message mdata > last_message mdata
      then mdata\<lparr>unread := 0\<rparr>
      else mdata\<lparr>unread :=
             unread_loop (first_message mdata) (last_message mdata) (newsrc_list mdata)
               (last_message mdata - first_message mdata + 1)\<rparr>)"

section \<open>Generating the entries from the open mailbox\<close>

text \<open>
  The locals of \<^verbatim>\<open>nntp_newsrc_gen_entries\<close>: \<open>first\<close>, \<open>last\<close> (here \<open>lst\<close>), \<open>series\<close>
  and the entries written so far. The e-mails are taken in \<^verbatim>\<open>SORT_ORDER\<close>, which
  the function forces before the loop.
\<close>

type_synonym gen_state = "anum_t \<times> anum_t \<times> bool \<times> NewsrcEntry list"

fun gen_step :: "anum_t \<Rightarrow> gen_state \<Rightarrow> Email \<Rightarrow> gen_state" where
  "gen_step fm (first, lst, series, ents) e =
     (if series then
        (let lst' = article_num e in
         if lst' \<ge> fm \<and> \<not> deleted_e e \<and> \<not> read e
         then (first, lst', False, ents @ [(first, lst' - 1)])
         else (first, lst', True, ents))
      else
        (if deleted_e e \<or> read e
         then (lst + 1, article_num e, True, ents)
         else (first, article_num e, False, ents)))"

fun gen_loop :: "anum_t \<Rightarrow> gen_state \<Rightarrow> Email list \<Rightarrow> gen_state" where
  "gen_loop fm s [] = s"
| "gen_loop fm s (e # es) = gen_loop fm (gen_step fm s e) es"

definition gen_entries :: "anum_t \<Rightarrow> anum_t \<Rightarrow> Email list \<Rightarrow> NewsrcEntry list" where
  "gen_entries fm ll es =
     (case gen_loop fm (1, 0, True, []) es of
        (first, lst, series, ents) \<Rightarrow>
          if series \<and> first \<le> ll then ents @ [(first, ll)] else ents)"

text \<open>
  The whole function on the group of the mailbox. The final \<^verbatim>\<open>mutt_mem_realloc\<close>
  to \<^verbatim>\<open>newsrc_len\<close> entries (mutt/memory.h is not among the sources) is taken to
  free the array and leave NULL when the size is 0, that is when no entry was written.
\<close>

definition nntp_newsrc_gen_entries :: "NntpMboxData \<Rightarrow> Email list \<Rightarrow> NntpMboxData" where
  "nntp_newsrc_gen_entries mdata es =
     (let ents = gen_entries (first_message mdata) (last_loaded mdata) es
      in mdata\<lparr>newsrc_ent := (if ents = [] then None else Some ents)\<rparr>)"

section \<open>The C library calls on strings\<close>

text \<open>
  \<^verbatim>\<open>isspace\<close> and \<^verbatim>\<open>isdigit\<close> in the C locale.
\<close>

definition isspace :: "char \<Rightarrow> bool" where
  "isspace c = (c = CHR '' '' \<or> c = CHR 0x09 \<or> c = CHR 0x0A \<or> c = CHR 0x0B
     \<or> c = CHR 0x0C \<or> c = CHR 0x0D)"

definition isdigit :: "char \<Rightarrow> bool" where
  "isdigit c = (48 \<le> (of_char c :: nat) \<and> (of_char c :: nat) \<le> 57)"

definition digits_val :: "string \<Rightarrow> nat" where
  "digits_val ds = foldl (\<lambda>a c. a * 10 + ((of_char c :: nat) - 48)) 0 ds"

text \<open>
  One \<^verbatim>\<open>%u\<close> conversion of \<^verbatim>\<open>sscanf\<close>: white space is skipped, a sign is
  accepted, at least one decimal digit is required. The result is the value and the rest
  of the input, \<open>None\<close> when the conversion fails. The digits are converted as by
  \<^verbatim>\<open>strtoul\<close> into an unsigned long of 64 bits, which is then cut to the 32 bits of
  the unsigned int: a number from \<open>2 ^ 64\<close> on is saturated and arrives as 4294967295
  whatever its sign, a smaller number arrives modulo \<open>2 ^ 32\<close>, negated in that
  arithmetic when a minus sign stands before it.
\<close>

definition scan_anum :: "string \<Rightarrow> (anum_t \<times> string) option" where
  "scan_anum s =
     (let s1 = dropWhile isspace s;
          neg = (case s1 of [] \<Rightarrow> False | c # r \<Rightarrow> c = CHR ''-'');
          s2 = (case s1 of [] \<Rightarrow> [] | c # r \<Rightarrow> if c = CHR ''-'' \<or> c = CHR ''+'' then r else s1);
          ds = takeWhile isdigit s2;
          n = digits_val ds
      in if ds = [] then None
         else Some (if 2 ^ 64 \<le> n then - 1 else if neg then - of_nat n else of_nat n,
                    dropWhile isdigit s2))"

text \<open>\<^verbatim>\<open>sscanf(s, "%u", &x) == 1\<close>, with the value stored.\<close>

definition sscanf_anum :: "string \<Rightarrow> anum_t option" where
  "sscanf_anum s = map_option fst (scan_anum s)"

text \<open>
  The return value of \<^verbatim>\<open>sscanf(id, "%u%c", &anum, &c)\<close> and the number read:
  1 when a number is all there is, 2 when a character follows it, and no conversion
  (0 here, for the C values 0 and EOF) otherwise.
\<close>

definition sscanf_anum_c :: "string \<Rightarrow> nat \<times> anum_t" where
  "sscanf_anum_c s =
     (case scan_anum s of
        None \<Rightarrow> (0, 0)
      | Some (v, rest) \<Rightarrow> (if rest = [] then (1, v) else (2, v)))"

text \<open>
  \<^verbatim>\<open>sscanf(s, "%u %u", &first, &last) == 2\<close>: the blank of the format matches any
  white space, which the second conversion skips anyway.
\<close>

definition sscanf_anum2 :: "string \<Rightarrow> (anum_t \<times> anum_t) option" where
  "sscanf_anum2 s =
     (case scan_anum s of
        None \<Rightarrow> None
      | Some (a, rest) \<Rightarrow> (case scan_anum rest of None \<Rightarrow> None | Some (b, r) \<Rightarrow> Some (a, b)))"

text \<open>\<^verbatim>\<open>printf("%u")\<close>: the decimal digits, most significant first.\<close>

function dec_nat :: "nat \<Rightarrow> string" where
  "dec_nat n = (if n < 10 then [char_of (48 + n)]
                else dec_nat (n div 10) @ [char_of (48 + n mod 10)])"
  by pat_completeness auto
termination
  by (relation "measure (\<lambda>n. n)") auto

declare dec_nat.simps [simp del]

definition dec :: "anum_t \<Rightarrow> string" where
  "dec w = dec_nat (unat w)"

text \<open>
  \<^verbatim>\<open>strchr(p, c)\<close> followed by writing NUL over the character found: the text before
  it and the text after it; \<open>None\<close> is the NULL result.
\<close>

fun strchr :: "string \<Rightarrow> char \<Rightarrow> (string \<times> string) option" where
  "strchr [] c = None"
| "strchr (x # xs) c =
     (if x = c then Some ([], xs)
      else (case strchr xs c of None \<Rightarrow> None | Some (a, b) \<Rightarrow> Some (x # a, b)))"

text \<open>\<^verbatim>\<open>strpbrk(line, accept)\<close>: the text before the first accepted character, that
  character, and the text after it.\<close>

fun strpbrk :: "string \<Rightarrow> string \<Rightarrow> (string \<times> char \<times> string) option" where
  "strpbrk [] accept = None"
| "strpbrk (x # xs) accept =
     (if x \<in> set accept then Some ([], x, xs)
      else (case strpbrk xs accept of None \<Rightarrow> None | Some (a, m, b) \<Rightarrow> Some (x # a, m, b)))"

section \<open>Parsing the newsrc file\<close>

text \<open>
  \<^verbatim>\<open>mdata_find\<close>: the group of that name, created at the end of the list when the
  hash does not know it. The capacity \<^verbatim>\<open>groups_max\<close> of the array is not modelled.
\<close>

definition new_mdata :: "string \<Rightarrow> NntpMboxData" where
  "new_mdata name =
     \<lparr>group = name, first_message = 0, last_message = 0, last_loaded = 0, last_cached = 0,
      unread = 0, subscribed = False, deleted = True, allowed = False, newsrc_ent = None\<rparr>"

definition mdata_find :: "NntpAccountData \<Rightarrow> string \<Rightarrow> NntpAccountData \<times> nat" where
  "mdata_find adata name =
     (case groups_hash adata name of
        Some i \<Rightarrow> (adata, i)
      | None \<Rightarrow>
          (let i = length (groups_list adata)
           in (adata\<lparr>groups_hash := (groups_hash adata)(name \<mapsto> i),
                     groups_list := groups_list adata @ [Some (new_mdata name)]\<rparr>, i)))"

text \<open>
  Writing through a pointer to a group. A position that the hash holds refers to a
  group of the list; at any other position nothing is written.
\<close>

definition mdata_modify ::
  "NntpAccountData \<Rightarrow> nat \<Rightarrow> (NntpMboxData \<Rightarrow> NntpMboxData) \<Rightarrow> NntpAccountData" where
  "mdata_modify adata i f =
     (case mdata_get adata i of None \<Rightarrow> adata | Some mdata \<Rightarrow> mdata_set adata i (f mdata))"

text \<open>
  One range token \<open>b\<close>: split at the first \<^verbatim>\<open>'-'\<close>, or read twice when there is
  none; the entry is kept when both \<^verbatim>\<open>sscanf\<close> calls return 1.
\<close>

definition parse_entry :: "string \<Rightarrow> NewsrcEntry list \<Rightarrow> NewsrcEntry list" where
  "parse_entry b ents =
     (let (b', h) = (case strchr b (CHR ''-'') of None \<Rightarrow> (b, b) | Some (x, y) \<Rightarrow> (x, y))
      in (case sscanf_anum b' of
            None \<Rightarrow> ents
          | Some f \<Rightarrow> (case sscanf_anum h of None \<Rightarrow> ents | Some l \<Rightarrow> ents @ [(f, l)])))"

lemma strchr_shorter: "strchr p c = Some (b, p') \<Longrightarrow> length p' < length p"
  by (induction p arbitrary: b) (auto split: if_splits option.splits)

text \<open>The loop \<^verbatim>\<open>while (p)\<close> over the comma-separated tokens.\<close>

function parse_entries :: "string \<Rightarrow> NewsrcEntry list \<Rightarrow> NewsrcEntry list" where
  "parse_entries p ents =
     (case strchr p (CHR '','') of
        None \<Rightarrow> parse_entry p ents
      | Some (b, p') \<Rightarrow> parse_entries p' (parse_entry b ents))"
  by pat_completeness auto

termination
  by (relation "measure (\<lambda>(p, ents). length p)") (auto dest: strchr_shorter)

declare parse_entries.simps [simp del]

text \<open>
  The body of the loop over the lines of the file: a line without \<^verbatim>\<open>':'\<close> or
  \<^verbatim>\<open>'!'\<close> is passed over; otherwise the group is found or made, its entries are
  replaced by the parsed ones (by the entry (1, 0) when there is none), and the unread
  count is recomputed.
\<close>

definition parse_line :: "NntpAccountData \<Rightarrow> string \<Rightarrow> NntpAccountData" where
  "parse_line adata line =
     (case strpbrk line '':!'' of
        None \<Rightarrow> adata
      | Some (name, marker, p) \<Rightarrow>
          (let subs = (marker = CHR '':'');
               (adata1, i) = mdata_find adata name;
               ents = parse_entries p [];
               ents1 = (if ents = [] then [(1, 0)] else ents)
           in mdata_modify adata1 i
                (\<lambda>mdata. nntp_group_unread_stat
                   (mdata\<lparr>newsrc_ent := Some ents1, subscribed := subs,
                          last_message := (if last_message mdata = 0 then snd (last ents1)
                                           else last_message mdata)\<rparr>))))"

text \<open>
  What the system calls of \<^verbatim>\<open>nntp_newsrc_parse\<close> met: the open failed, the lock
  failed, \<^verbatim>\<open>stat\<close> failed, or the file is open and locked with the \<^verbatim>\<open>st_size\<close>
  and \<^verbatim>\<open>st_mtime\<close> that \<^verbatim>\<open>stat\<close> reported and the lines that \<^verbatim>\<open>fgets\<close> will
  deliver.
\<close>

datatype newsrc_io = OpenFailed | LockFailed | StatFailed | Opened int int "string list"

definition newsrc_reset :: "NntpMboxData \<Rightarrow> NntpMboxData" where
  "newsrc_reset mdata = mdata\<lparr>subscribed := False, newsrc_ent := None\<rparr>"

definition nntp_newsrc_parse :: "newsrc_io \<Rightarrow> NntpAccountData \<Rightarrow> int \<times> NntpAccountData" where
  "nntp_newsrc_parse io adata =
     (case io of
        OpenFailed \<Rightarrow> (- 1, adata\<lparr>fp_newsrc := False\<rparr>)
      | LockFailed \<Rightarrow> (- 1, adata\<lparr>fp_newsrc := False\<rparr>)
      | StatFailed \<Rightarrow> (- 1, adata\<lparr>fp_newsrc := False\<rparr>)
      | Opened st_size st_mtime lines \<Rightarrow>
          if size adata = st_size \<and> mtime adata = st_mtime
          then (0, adata\<lparr>fp_newsrc := True\<rparr>)
          else
            (let adata1 = adata\<lparr>fp_newsrc := True, size := st_size, mtime := st_mtime,
                                 newsrc_modified := True,
                                 groups_list := map (map_option newsrc_reset) (groups_list adata)\<rparr>
             in (1, foldl parse_line adata1 (if st_size = 0 then [] else lines))))"

section \<open>Writing the newsrc file\<close>

text \<open>
  The text that \<^verbatim>\<open>nntp_newsrc_update\<close> has \<^verbatim>\<open>snprintf\<close> print for one entry: the
  format \<^verbatim>\<open>%u\<close> when \<^verbatim>\<open>first == last\<close>, the format \<^verbatim>\<open>%u-%u\<close> when
  \<^verbatim>\<open>first < last\<close>, and nothing otherwise. \<open>entries_str\<close> is the range text of the
  entries from index \<open>j\<close> on, each but the first after a comma: what the loop over
  the entries appends when no text is cut.
\<close>

definition entry_str :: "NewsrcEntry \<Rightarrow> string" where
  "entry_str e =
     (if fst e = snd e then dec (fst e)
      else if fst e < snd e then dec (fst e) @ ''-'' @ dec (snd e)
      else [])"

fun entries_str :: "nat \<Rightarrow> NewsrcEntry list \<Rightarrow> string" where
  "entries_str j [] = []"
| "entries_str j (e # es) =
     (if j \<noteq> 0 then '','' else []) @ entry_str e @ entries_str (Suc j) es"

text \<open>\<^verbatim>\<open>snprintf(dst, n, ...)\<close> keeps at most \<open>n - 1\<close> characters.\<close>

definition snprintf :: "nat \<Rightarrow> string \<Rightarrow> string" where
  "snprintf n s = take (n - 1) s"

text \<open>
  The buffer of \<^verbatim>\<open>nntp_newsrc_update\<close> is the pair of \<^verbatim>\<open>buflen\<close>, the size
  allocated, and the text written so far, whose length is the offset \<^verbatim>\<open>off\<close>.
  Names and texts are C strings, without NUL.

  \<open>write_name\<close>: the size is doubled, once, when the name with the marker, the
  blank and the NUL does not fit; then \<^verbatim>\<open>snprintf\<close> prints the name, the marker and
  a blank into what is left of the buffer, which cuts the text when it is longer, and
  the offset moves to the end of what was printed.

  \<open>write_entries\<close>: the loop over the entries from index \<open>j\<close> on. The size is
  doubled, once, when fewer than 1024 bytes are left; a comma is stored before every
  entry but the first; then the entry is printed into what is left of the buffer. For
  an entry with \<^verbatim>\<open>first > last\<close> nothing is printed and the offset stays where it
  is, the byte at the offset being taken to be the NUL that ended the text before.

  \<open>write_group\<close>: the name, the entries and a line feed. \<open>newsrc_buf\<close>: the loop
  over \<^verbatim>\<open>groups_list\<close>, which passes over a NULL and over a group without an
  entry array.
\<close>

definition write_name :: "nat \<times> string \<Rightarrow> NntpMboxData \<Rightarrow> nat \<times> string" where
  "write_name b mdata =
     (case b of (buflen, buf) \<Rightarrow>
        (let buflen1 = (if length buf + length (group mdata) + 3 > buflen then buflen * 2
                        else buflen)
         in (buflen1,
             buf @ snprintf (buflen1 - length buf)
                     (group mdata @ [if subscribed mdata then CHR '':'' else CHR ''!''] @ '' ''))))"

fun write_entries :: "nat \<times> string \<Rightarrow> nat \<Rightarrow> NewsrcEntry list \<Rightarrow> nat \<times> string" where
  "write_entries b j [] = b"
| "write_entries (buflen, buf) j (e # es) =
     (let buflen1 = (if length buf + 1024 > buflen then buflen * 2 else buflen);
          buf1 = (if j \<noteq> 0 then buf @ '','' else buf)
      in write_entries (buflen1, buf1 @ snprintf (buflen1 - length buf1) (entry_str e)) (Suc j) es)"

definition write_group :: "nat \<times> string \<Rightarrow> NntpMboxData \<Rightarrow> nat \<times> string" where
  "write_group b mdata =
     (case write_entries (write_name b mdata) 0 (newsrc_list mdata) of
        (buflen, buf) \<Rightarrow> (buflen, buf @ [CHR 0x0A]))"

fun newsrc_buf :: "nat \<times> string \<Rightarrow> NntpMboxData option list \<Rightarrow> nat \<times> string" where
  "newsrc_buf b [] = b"
| "newsrc_buf b (None # gs) = newsrc_buf b gs"
| "newsrc_buf b (Some mdata # gs) =
     (if newsrc_ent mdata = None then newsrc_buf b gs else newsrc_buf (write_group b mdata) gs)"

text \<open>
  The file system is a map from paths to contents. \<open>update_io\<close> tells which of the
  calls of \<^verbatim>\<open>update_file\<close> succeed, and what the temporary file holds after a
  failed \<^verbatim>\<open>fputs\<close> or \<^verbatim>\<open>fclose\<close> (\<open>tmp_content\<close>: whatever part of the
  text reached the file). A call that fails leaves the file system as it was; so does
  \<^verbatim>\<open>unlink\<close>, whose result the function does not look at.
\<close>

type_synonym filesys = "string \<rightharpoonup> string"

record update_io =
  fopen_ok :: bool
  fputs_ok :: bool
  fclose_ok :: bool
  rename_ok :: bool
  unlink_ok :: bool
  tmp_content :: string

definition PATH_MAX :: nat where
  "PATH_MAX = 4096"

definition unlink :: "update_io \<Rightarrow> filesys \<Rightarrow> string \<Rightarrow> filesys" where
  "unlink io fs path = (if unlink_ok io then fs(path := None) else fs)"

definition rename :: "filesys \<Rightarrow> string \<Rightarrow> string \<Rightarrow> filesys" where
  "rename fs old new =
     (if old = new then fs
      else (case fs old of None \<Rightarrow> fs | Some c \<Rightarrow> (fs(new \<mapsto> c))(old := None)))"

text \<open>
  \<^verbatim>\<open>update_file\<close>: the return code and the file system afterwards. Each failing
  call leaves the loop; after the loop \<^verbatim>\<open>unlink\<close> is called on the temporary
  file unless its name was cleared, which happens when it could not be opened and
  after the rename.
\<close>

definition update_file :: "update_io \<Rightarrow> filesys \<Rightarrow> string \<Rightarrow> string \<Rightarrow> int \<times> filesys" where
  "update_file io fs filename buf =
     (let tmpfile = snprintf PATH_MAX (filename @ ''.tmp'')
      in if \<not> fopen_ok io then (- 1, fs)
         else
           (let fs1 = fs(tmpfile \<mapsto> [])
            in if \<not> fputs_ok io
               then (- 1, unlink io (fs1(tmpfile \<mapsto> tmp_content io)) tmpfile)
               else if \<not> fclose_ok io
               then (- 1, unlink io (fs1(tmpfile \<mapsto> tmp_content io)) tmpfile)
               else
                 (let fs2 = fs1(tmpfile \<mapsto> buf)
                  in if \<not> rename_ok io then (- 1, unlink io fs2 tmpfile)
                     else (0, rename fs2 tmpfile filename))))"

text \<open>
  \<^verbatim>\<open>nntp_newsrc_update\<close>: the text for all groups, written into a buffer of
  10240 bytes to begin with, is handed to \<^verbatim>\<open>update_file\<close>; after a successful
  replacement \<^verbatim>\<open>stat\<close> gives the new fingerprint of the account. \<open>newsrc_file\<close>
  is the path held by the account, \<open>None\<close> when it is NULL, and \<open>st\<close> is what
  \<^verbatim>\<open>stat\<close> reports, \<open>None\<close> when it fails.
\<close>

definition nntp_newsrc_update ::
  "update_io \<Rightarrow> (int \<times> int) option \<Rightarrow> filesys \<Rightarrow> string option \<Rightarrow> NntpAccountData
     \<Rightarrow> int \<times> filesys \<times> NntpAccountData" where
  "nntp_newsrc_update io st fs newsrc_file adata =
     (let buf = snd (newsrc_buf (10240, []) (groups_list adata))
      in (case newsrc_file of
            None \<Rightarrow> (- 1, fs, adata)
          | Some filename \<Rightarrow>
              (case update_file io fs filename buf of
                 (rc, fs1) \<Rightarrow>
                   if rc = 0
                   then (case st of
                           None \<Rightarrow> (- 1, fs1, adata)
                         | Some (st_size, st_mtime) \<Rightarrow>
                             (0, fs1, adata\<lparr>size := st_size, mtime := st_mtime\<rparr>))
                   else (- 1, fs1, adata))))"

section \<open>Trimming the caches\<close>

text \<open>
  Modelled from the spec: the body cache and the header cache are key-value stores
  with \<^verbatim>\<open>fetch(key)\<close>, \<^verbatim>\<open>store(key, bytes)\<close>, \<^verbatim>\<open>delete(key)\<close> and a listing of
  the keys (bcache.h and hcache/hcache.h are not among the sources). The body cache
  is the list of its keys, which \<^verbatim>\<open>mutt_bcache_list\<close> walks; the header cache is a map
  from keys to raw values.
\<close>

type_synonym BodyCache = "string list"

type_synonym header_cache = "string \<rightharpoonup> string"

definition mutt_bcache_del :: "BodyCache \<Rightarrow> string \<Rightarrow> BodyCache" where
  "mutt_bcache_del bcache ident = filter (\<lambda>k. k \<noteq> ident) bcache"

text \<open>\<^verbatim>\<open>nntp_bcache_delete\<close>, the callback for one key; \<open>None\<close> is the NULL \<^verbatim>\<open>data\<close>.\<close>

definition nntp_bcache_delete :: "string \<Rightarrow> BodyCache \<Rightarrow> NntpMboxData option \<Rightarrow> BodyCache" where
  "nntp_bcache_delete ident bcache data =
     (case data of
        None \<Rightarrow> mutt_bcache_del bcache ident
      | Some mdata \<Rightarrow>
          (let (n, anum) = sscanf_anum_c ident
           in if n \<noteq> 1 \<or> anum < first_message mdata \<or> anum > last_message mdata
              then mutt_bcache_del bcache ident
              else bcache))"

definition mutt_bcache_list ::
  "BodyCache \<Rightarrow> (string \<Rightarrow> BodyCache \<Rightarrow> 'a \<Rightarrow> BodyCache) \<Rightarrow> 'a \<Rightarrow> BodyCache" where
  "mutt_bcache_list bcache want_id data = foldl (\<lambda>b ident. want_id ident b data) bcache bcache"

definition nntp_bcache_update :: "NntpMboxData \<Rightarrow> BodyCache \<Rightarrow> BodyCache" where
  "nntp_bcache_update mdata bcache = mutt_bcache_list bcache nntp_bcache_delete (Some mdata)"

text \<open>
  The loop \<^verbatim>\<open>for (current = first; current <= last; current++)\<close> of
  \<^verbatim>\<open>nntp_hcache_update\<close>. The counter is an \<^verbatim>\<open>anum_t\<close> and wraps, so the loop
  does not end when \<^verbatim>\<open>last\<close> is the largest value: the result is \<open>None\<close> then.
  The function itself is given an open header cache (with NULL it returns at once);
  it reads the range recorded under the key \<^verbatim>\<open>index\<close>, deletes the headers of that
  range that are outside the window of the group, and records the window when it is
  not the recorded range.
\<close>

partial_function (option) hcache_loop ::
  "anum_t \<Rightarrow> anum_t \<Rightarrow> anum_t \<Rightarrow> anum_t \<Rightarrow> header_cache \<Rightarrow> header_cache option" where
  "hcache_loop fm lm current lst hc =
     (if current \<le> lst
      then hcache_loop fm lm (current + 1) lst
             (if current \<ge> fm \<and> current \<le> lm then hc else hc(dec current := None))
      else Some hc)"

definition nntp_hcache_update ::
  "NntpMboxData \<Rightarrow> header_cache \<Rightarrow> (NntpMboxData \<times> header_cache) option" where
  "nntp_hcache_update mdata hc =
     (let index = (first_message mdata, last_message mdata);
          index_str = dec (first_message mdata) @ '' '' @ dec (last_message mdata)
      in (case hc ''index'' of
            None \<Rightarrow> Some (mdata, hc(''index'' \<mapsto> index_str))
          | Some hdata \<Rightarrow>
              (case sscanf_anum2 hdata of
                 None \<Rightarrow> Some (mdata, hc(''index'' \<mapsto> index_str))
               | Some (first, lst) \<Rightarrow>
                   (case hcache_loop (first_message mdata) (last_message mdata) first lst hc of
                      None \<Rightarrow> None
                    | Some hc1 \<Rightarrow>
                        Some (mdata\<lparr>last_cached := lst\<rparr>,
                              if (first, lst) \<noteq> index then hc1(''index'' \<mapsto> index_str)
                              else hc1)))))"

section \<open>Subscribing, catching up, and the next group with unread articles\<close>

text \<open>
  The functions return the pointer to the group, here its position, or NULL, here
  \<open>None\<close>. The account and its hash are taken to be there; the test
  \<^verbatim>\<open>!*group\<close> is the test for the empty name.
\<close>

definition mutt_newsgroup_subscribe ::
  "NntpAccountData \<Rightarrow> string \<Rightarrow> nat option \<times> NntpAccountData" where
  "mutt_newsgroup_subscribe adata grp =
     (if grp = [] then (None, adata)
      else
        (let (adata1, i) = mdata_find adata grp
         in (Some i,
             mdata_modify adata1 i
               (\<lambda>mdata. mdata\<lparr>subscribed := True,
                               newsrc_ent := (case newsrc_ent mdata of
                                                None \<Rightarrow> Some [(1, 0)]
                                              | Some es \<Rightarrow> Some es)\<rparr>))))"

text \<open>\<open>save_unsub\<close> is the configuration variable \<^verbatim>\<open>C_SaveUnsubscribed\<close>.\<close>

definition mutt_newsgroup_unsubscribe ::
  "bool \<Rightarrow> NntpAccountData \<Rightarrow> string \<Rightarrow> nat option \<times> NntpAccountData" where
  "mutt_newsgroup_unsubscribe save_unsub adata grp =
     (if grp = [] then (None, adata)
      else
        (case groups_hash adata grp of
           None \<Rightarrow> (None, adata)
         | Some i \<Rightarrow>
             (Some i,
              mdata_modify adata i
                (\<lambda>mdata. if save_unsub then mdata\<lparr>subscribed := False\<rparr>
                          else mdata\<lparr>subscribed := False, newsrc_ent := None\<rparr>))))"

text \<open>
  Modelled from the spec: \<^verbatim>\<open>mutt_set_flag(m, e, MUTT_READ, bf)\<close> is not among the
  sources; it sets the read flag of every loaded article to match.
\<close>

definition set_read_all :: "bool \<Rightarrow> Mailbox \<Rightarrow> Mailbox" where
  "set_read_all bf m = m\<lparr>emails := map (\<lambda>e. e\<lparr>read := bf\<rparr>) (emails m)\<rparr>"

definition is_open_group :: "Mailbox option \<Rightarrow> nat \<Rightarrow> bool" where
  "is_open_group m i = (case m of None \<Rightarrow> False | Some mb \<Rightarrow> mdata_ptr mb = i)"

definition mutt_newsgroup_catchup ::
  "Mailbox option \<Rightarrow> NntpAccountData \<Rightarrow> string
     \<Rightarrow> nat option \<times> NntpAccountData \<times> Mailbox option" where
  "mutt_newsgroup_catchup m adata grp =
     (if grp = [] then (None, adata, m)
      else
        (case groups_hash adata grp of
           None \<Rightarrow> (None, adata, m)
         | Some i \<Rightarrow>
             (Some i,
              mdata_modify adata i
                (\<lambda>mdata. mdata\<lparr>newsrc_ent := (case newsrc_ent mdata of
                                                None \<Rightarrow> None
                                              | Some es \<Rightarrow> Some [(1, last_message mdata)]),
                               unread := 0\<rparr>),
              if is_open_group m i then map_option (set_read_all True) m else m)))"

text \<open>
  What \<^verbatim>\<open>mutt_newsgroup_uncatchup\<close> does to the group: the entry, when there is an
  array, and then the unread count, which is \<^verbatim>\<open>m->msg_count\<close> for the group of the
  open mailbox and \<^verbatim>\<open>last_message\<close> less the end of the entry otherwise.
\<close>

definition uncatchup_mdata :: "Mailbox option \<Rightarrow> nat \<Rightarrow> NntpMboxData \<Rightarrow> NntpMboxData" where
  "uncatchup_mdata m i mdata =
     (let mdata1 = mdata\<lparr>newsrc_ent := (case newsrc_ent mdata of
                                          None \<Rightarrow> None
                                        | Some es \<Rightarrow> Some [(1, first_message mdata - 1)])\<rparr>;
          closed = (case newsrc_ent mdata1 of
                      None \<Rightarrow> last_message mdata1
                    | Some es \<Rightarrow> last_message mdata1 - snd (hd es))
      in (case m of
            None \<Rightarrow> mdata1\<lparr>unread := closed\<rparr>
          | Some mb \<Rightarrow>
              if mdata_ptr mb = i then mdata1\<lparr>unread := of_nat (length (emails mb))\<rparr>
              else mdata1\<lparr>unread := closed\<rparr>))"

definition mutt_newsgroup_uncatchup ::
  "Mailbox option \<Rightarrow> NntpAccountData \<Rightarrow> string
     \<Rightarrow> nat option \<times> NntpAccountData \<times> Mailbox option" where
  "mutt_newsgroup_uncatchup m adata grp =
     (if grp = [] then (None, adata, m)
      else
        (case groups_hash adata grp of
           None \<Rightarrow> (None, adata, m)
         | Some i \<Rightarrow>
             (Some i,
              mdata_modify adata i (uncatchup_mdata m i),
              if is_open_group m i then map_option (set_read_all False) m else m)))"

text \<open>
  \<^verbatim>\<open>nntp_mailbox\<close> walks \<^verbatim>\<open>groups_list\<close> of the current server and copies the name
  of the group it stops at into the caller's buffer; the result here is that group,
  \<open>None\<close> when the buffer is left as it was. \<open>live_unread_loop\<close> is the inner
  loop over the e-mails of the mailbox, with the counter
  \<^verbatim>\<open>unsigned int unread\<close>, here \<open>u\<close>, that starts at 0 and is incremented for
  every e-mail that is neither read nor deleted. \<open>open_group\<close> reads \<^verbatim>\<open>m->mdata->group\<close>,
  the open mailbox being one of the current server.
\<close>

fun live_unread_loop :: "Email list \<Rightarrow> 32 word \<Rightarrow> 32 word" where
  "live_unread_loop [] u = u"
| "live_unread_loop (e # es) u =
     live_unread_loop es (if \<not> read e \<and> \<not> deleted_e e then u + 1 else u)"

definition live_unread :: "Mailbox \<Rightarrow> 32 word" where
  "live_unread m = live_unread_loop (emails m) 0"

definition open_group :: "NntpAccountData \<Rightarrow> Mailbox \<Rightarrow> string option" where
  "open_group adata m = map_option group (mdata_get adata (mdata_ptr m))"

fun nntp_mailbox_loop ::
  "string option \<Rightarrow> Mailbox \<Rightarrow> NntpMboxData option list \<Rightarrow> NntpMboxData option" where
  "nntp_mailbox_loop og m [] = None"
| "nntp_mailbox_loop og m (None # gs) = nntp_mailbox_loop og m gs"
| "nntp_mailbox_loop og m (Some mdata # gs) =
     (if \<not> subscribed mdata \<or> unread mdata = 0 then nntp_mailbox_loop og m gs
      else if magic m = MUTT_NNTP \<and> og = Some (group mdata) \<and> live_unread m = 0
           then nntp_mailbox_loop og m gs
      else Some mdata)"

definition nntp_mailbox :: "NntpAccountData \<Rightarrow> Mailbox option \<Rightarrow> NntpMboxData option" where
  "nntp_mailbox CurrentNewsSrv m =
     (case m of
        None \<Rightarrow> None
      | Some mb \<Rightarrow> nntp_mailbox_loop (open_group CurrentNewsSrv mb) mb (groups_list CurrentNewsSrv))"

section \<open>The unread count as the specification words it\<close>

text \<open>
  The length of one entry clamped to the window \<open>[fm, lm]\<close>, counted only when the
  clamped entry is not empty, and the sum of these lengths, as integers.
\<close>

fun clamped_len :: "anum_t \<Rightarrow> anum_t \<Rightarrow> NewsrcEntry \<Rightarrow> int" where
  "clamped_len fm lm (f, l) =
     (let lo = max f fm; hi = min l lm
      in if lo \<le> hi then uint hi - uint lo + 1 else 0)"

definition clamped_sum :: "anum_t \<Rightarrow> anum_t \<Rightarrow> NewsrcEntry list \<Rightarrow> int" where
  "clamped_sum fm lm es = sum_list (map (clamped_len fm lm) es)"

text \<open>The count of the specification: the span minus the sum, never below 0.\<close>

definition spec_unread_count :: "NntpMboxData \<Rightarrow> int" where
  "spec_unread_count mdata =
     max 0 (uint (last_message mdata) - uint (first_message mdata) + 1
            - clamped_sum (first_message mdata) (last_message mdata) (newsrc_list mdata))"

section \<open>Reading the entries back\<close>

text \<open>
  The loop of \<^verbatim>\<open>nntp_article_status\<close> that decides whether an article number is
  read: some entry has \<^verbatim>\<open>first <= anum <= last\<close>.
\<close>

fun newsrc_has :: "NewsrcEntry list \<Rightarrow> anum_t \<Rightarrow> bool" where
  "newsrc_has [] n = False"
| "newsrc_has ((f, l) # es) n = (if n \<ge> f \<and> n \<le> l then True else newsrc_has es n)"

text \<open>An e-mail that ends a run of read articles: neither deleted nor read.\<close>

definition is_unread :: "Email \<Rightarrow> bool" where
  "is_unread e = (\<not> deleted_e e \<and> \<not> read e)"

text \<open>The numbers of the loaded articles that are unread.\<close>

definition unread_nums :: "Email list \<Rightarrow> anum_t set" where
  "unread_nums es = article_num ` set (filter is_unread es)"

text \<open>
  Invariants of the loop of \<^verbatim>\<open>nntp_newsrc_gen_entries\<close>. \<open>covopen\<close>: the number
  is in an entry written so far or in the run that is still open. \<open>gen_wf\<close>: the
  entries end at or before the last article seen, the open run starts at most one
  past it, and once a run was closed the scan is at or past \<^verbatim>\<open>first_message\<close>.
  \<open>gen_bounded\<close>: every entry starts at 1 or one past an unread article and ends
  one before an unread article.
\<close>

fun covopen :: "gen_state \<Rightarrow> anum_t \<Rightarrow> bool" where
  "covopen (first, lst, series, ents) n = (newsrc_has ents n \<or> (series \<and> first \<le> n))"

fun gen_wf :: "anum_t \<Rightarrow> gen_state \<Rightarrow> bool" where
  "gen_wf fm (first, lst, series, ents) =
     ((\<forall>(f, l) \<in> set ents. l \<le> lst) \<and> (series \<longrightarrow> unat first \<le> unat lst + 1)
      \<and> (\<not> series \<longrightarrow> fm \<le> lst))"

fun gen_lst :: "gen_state \<Rightarrow> anum_t" where
  "gen_lst (first, lst, series, ents) = lst"

fun gen_bounded :: "anum_t set \<Rightarrow> gen_state \<Rightarrow> bool" where
  "gen_bounded A (first, lst, series, ents) =
     ((\<forall>(f, l) \<in> set ents. (f = 1 \<or> f - 1 \<in> A) \<and> l + 1 \<in> A)
      \<and> (series \<longrightarrow> first = 1 \<or> first - 1 \<in> A)
      \<and> (\<not> series \<longrightarrow> lst \<in> A))"

text \<open>An e-mail that is not deleted, for the examples.\<close>

definition mk_email :: "anum_t \<Rightarrow> bool \<Rightarrow> Email" where
  "mk_email n r = \<lparr>article_num = n, read = r, deleted_e = False\<rparr>"

section \<open>Notions used in the statements\<close>

text \<open>Catching up a group and then uncatching it up: the account afterwards.\<close>

definition catchup_uncatchup :: "Mailbox option \<Rightarrow> NntpAccountData \<Rightarrow> string \<Rightarrow> NntpAccountData" where
  "catchup_uncatchup m adata grp =
     (case mutt_newsgroup_catchup m adata grp of
        (r1, adata1, m1) \<Rightarrow>
          (case mutt_newsgroup_uncatchup m1 adata1 grp of (r2, adata2, m2) \<Rightarrow> adata2))"

text \<open>Accounts for the examples: one with a single group, one with two groups.\<close>

definition one_group :: "NntpMboxData \<Rightarrow> NntpAccountData" where
  "one_group mdata =
     \<lparr>groups_hash = [group mdata \<mapsto> 0], groups_list = [Some mdata], size = 0, mtime = 0,
      newsrc_modified = False, fp_newsrc = False\<rparr>"

definition two_groups :: NntpAccountData where
  "two_groups =
     \<lparr>groups_hash = [''a'' \<mapsto> 0, ''b'' \<mapsto> 1],
      groups_list = [Some ((new_mdata ''a'')\<lparr>subscribed := True, unread := 3\<rparr>),
                     Some ((new_mdata ''b'')\<lparr>subscribed := True, unread := 2\<rparr>)],
      size = 0, mtime = 0, newsrc_modified = False, fp_newsrc = False\<rparr>"

text \<open>
  The next group with unread articles as the specification words it. \<open>live_count\<close>
  is the unread count recomputed from the live flags: the number of e-mails of the
  open mailbox that are neither read nor deleted. A group is a candidate when it is
  subscribed, its stored unread count is not zero, and it is not the group of the
  open NNTP mailbox with a live count of zero. \<open>live_groups\<close> are the entries of
  \<^verbatim>\<open>groups_list\<close> that are not NULL, in the order of the list.
\<close>

definition live_count :: "Mailbox \<Rightarrow> nat" where
  "live_count m = length (filter (\<lambda>e. \<not> read e \<and> \<not> deleted_e e) (emails m))"

definition next_unread_ok :: "string option \<Rightarrow> Mailbox \<Rightarrow> NntpMboxData \<Rightarrow> bool" where
  "next_unread_ok og m mdata =
     (subscribed mdata \<and> unread mdata \<noteq> 0
      \<and> \<not> (magic m = MUTT_NNTP \<and> og = Some (group mdata) \<and> live_count m = 0))"

fun live_groups :: "NntpMboxData option list \<Rightarrow> NntpMboxData list" where
  "live_groups [] = []"
| "live_groups (None # gs) = live_groups gs"
| "live_groups (Some mdata # gs) = mdata # live_groups gs"

text \<open>
  The group that \<^verbatim>\<open>mutt_hash_find(adata->groups_hash, name)\<close> points to, and an
  account without groups.
\<close>

definition mutt_hash_find :: "NntpAccountData \<Rightarrow> string \<Rightarrow> NntpMboxData option" where
  "mutt_hash_find adata name =
     (case groups_hash adata name of None \<Rightarrow> None | Some i \<Rightarrow> mdata_get adata i)"

definition empty_account :: NntpAccountData where
  "empty_account =
     \<lparr>groups_hash = Map.empty, groups_list = [], size = 0, mtime = 0,
      newsrc_modified = False, fp_newsrc = False\<rparr>"

text \<open>
  A range token that does not parse as one or two unsigned integers: the text before
  its first \<^verbatim>\<open>'-'\<close>, or the text after it, is not scanned as a number; without a
  \<^verbatim>\<open>'-'\<close> the token itself is not. An entry is valid when \<open>first \<le> last\<close>.
\<close>

definition token_fails :: "string \<Rightarrow> bool" where
  "token_fails b =
     (case strchr b (CHR ''-'') of
        None \<Rightarrow> sscanf_anum b = None
      | Some (x, y) \<Rightarrow> sscanf_anum x = None \<or> sscanf_anum y = None)"

definition valid_entry :: "NewsrcEntry \<Rightarrow> bool" where
  "valid_entry e = (fst e \<le> snd e)"

text \<open>
  The line of a group in the newsrc file as the specification gives its format: the
  name, the marker (\<^verbatim>\<open>':'\<close> for a subscribed group, \<^verbatim>\<open>'!'\<close> otherwise), a blank,
  the range text and a line feed.
\<close>

definition newsrc_line :: "NntpMboxData \<Rightarrow> string" where
  "newsrc_line mdata =
     group mdata @ [if subscribed mdata then CHR '':'' else CHR ''!''] @ '' ''
       @ entries_str 0 (newsrc_list mdata) @ [CHR 0x0A]"

text \<open>
  Trimming as a filter. \<open>bc_keep\<close>: the key of a cached body is a plain number
  inside the window of the group. \<open>hcache_trim\<close>: the header cache without the
  headers whose number lies in the recorded range \<open>[first, lst]\<close> and outside the
  window \<open>[fm, lm]\<close>. \<open>window\<close> is a group with the given bounds, for the examples.
\<close>

definition bc_keep :: "NntpMboxData \<Rightarrow> string \<Rightarrow> bool" where
  "bc_keep mdata ident =
     (case sscanf_anum_c ident of
        (n, anum) \<Rightarrow> n = 1 \<and> first_message mdata \<le> anum \<and> anum \<le> last_message mdata)"

definition hcache_trim ::
  "anum_t \<Rightarrow> anum_t \<Rightarrow> anum_t \<Rightarrow> anum_t \<Rightarrow> header_cache \<Rightarrow> header_cache" where
  "hcache_trim fm lm first lst hc =
     (\<lambda>k. if \<exists>n. first \<le> n \<and> n \<le> lst \<and> \<not> (fm \<le> n \<and> n \<le> lm) \<and> k = dec n then None
          else hc k)"

definition window :: "anum_t \<Rightarrow> anum_t \<Rightarrow> NntpMboxData" where
  "window f l = (new_mdata ''g'')\<lparr>first_message := f, last_message := l\<rparr>"

section \<open>Verified properties\<close>

subsection \<open>The unread count\<close>

lemma clamped_len_word:
  "word_of_int (clamped_len fm lm (f, l)) =
     (if (if f < fm then fm else f) \<le> (if l > lm then lm else l)
      then (if l > lm then lm else l) - (if f < fm then fm else f) + 1 else 0)"
proof -
  have lo: "max f fm = (if f < fm then fm else f)" by (auto simp: max_def)
  have hi: "min l lm = (if l > lm then lm else l)" by (auto simp: min_def)
  show ?thesis
    unfolding clamped_len.simps Let_def lo hi by simp
qed

lemma unread_loop_word:
  "unread_loop fm lm es u = u - word_of_int (clamped_sum fm lm es)"
proof (induction es arbitrary: u)
  case Nil
  then show ?case by (simp add: clamped_sum_def)
next
  case (Cons e es)
  obtain f l where e: "e = (f, l)" by (cases e)
  have "clamped_sum fm lm (e # es) = clamped_len fm lm (f, l) + clamped_sum fm lm es"
    by (simp add: clamped_sum_def e)
  then have s: "word_of_int (clamped_sum fm lm (e # es)) =
      (word_of_int (clamped_len fm lm (f, l)) :: anum_t) + word_of_int (clamped_sum fm lm es)"
    by simp
  show ?case
    unfolding e s [unfolded e] clamped_len_word unread_loop.simps Let_def Cons.IH
    by simp
qed

lemma uint_span_minus:
  "uint (a - b + 1 - word_of_int c :: anum_t) = (uint a - uint b + 1 - c) mod 2 ^ 32"
proof -
  have "a - b + 1 - word_of_int c = (word_of_int (uint a - uint b + 1 - c) :: anum_t)"
    by simp
  then show ?thesis
    by (simp only: uint_word_of_int) simp
qed

lemma clamped_sum_nonneg: "0 \<le> clamped_sum fm lm es"
proof -
  have "0 \<le> clamped_len fm lm e" for e
    by (cases e) (auto simp: Let_def word_le_def)
  then show ?thesis
    unfolding clamped_sum_def by (induction es) (simp_all add: add_nonneg_nonneg)
qed

lemma spec_unread_agrees:
  assumes "last_message mdata \<noteq> 0" and "first_message mdata \<le> last_message mdata"
    and "clamped_sum (first_message mdata) (last_message mdata) (newsrc_list mdata)
           \<le> uint (last_message mdata) - uint (first_message mdata) + 1"
    and "uint (last_message mdata) - uint (first_message mdata) + 1 < 2 ^ 32"
  shows "uint (unread (nntp_group_unread_stat mdata)) = spec_unread_count mdata"
proof -
  let ?d = "uint (last_message mdata) - uint (first_message mdata) + 1
            - clamped_sum (first_message mdata) (last_message mdata) (newsrc_list mdata)"
  have "0 \<le> ?d" "?d < 2 ^ 32"
    using assms(3,4) clamped_sum_nonneg [of "first_message mdata" "last_message mdata"
        "newsrc_list mdata"]
    by simp_all
  then have "?d mod 2 ^ 32 = ?d" by simp
  moreover have "\<not> last_message mdata < first_message mdata"
    using assms(2) by (simp only: linorder_not_less)
  ultimately show ?thesis
    using assms(1) \<open>0 \<le> ?d\<close>
    by (simp add: nntp_group_unread_stat_def unread_loop_word uint_span_minus
        spec_unread_count_def)
qed

text \<open>
  C3, as the code has it. The count that \<^verbatim>\<open>nntp_group_unread_stat\<close> stores is 0
  when \<^verbatim>\<open>last_message\<close> is 0 or \<^verbatim>\<open>first_message > last_message\<close>; otherwise it
  is the span \<open>last - first + 1\<close> minus the sum of the clamped lengths of the entries,
  taken modulo \<open>2 ^ 32\<close>: a sum larger than the span wraps around and is not clamped
  to 0. When the window is not empty and the sum does not exceed the span, the count
  is the one of the specification. For the bounds [1, 10] and the entries [1, 3],
  [5, 7] the count is 4.
\<close>

theorem C3_unread_count_wraps:
  "uint (unread (nntp_group_unread_stat mdata)) =
     (if last_message mdata = 0 \<or> first_message mdata > last_message mdata then 0
      else (uint (last_message mdata) - uint (first_message mdata) + 1
            - clamped_sum (first_message mdata) (last_message mdata) (newsrc_list mdata))
           mod 2 ^ 32)
   \<and> (last_message mdata \<noteq> 0 \<and> first_message mdata \<le> last_message mdata
        \<and> clamped_sum (first_message mdata) (last_message mdata) (newsrc_list mdata)
             \<le> uint (last_message mdata) - uint (first_message mdata) + 1
        \<and> uint (last_message mdata) - uint (first_message mdata) + 1 < 2 ^ 32
        \<longrightarrow> uint (unread (nntp_group_unread_stat mdata)) = spec_unread_count mdata)
   \<and> unread (nntp_group_unread_stat (window 1 10\<lparr>newsrc_ent := Some [(1, 3), (5, 7)]\<rparr>)) = 4"
proof (intro conjI impI)
  show "uint (unread (nntp_group_unread_stat mdata)) =
     (if last_message mdata = 0 \<or> first_message mdata > last_message mdata then 0
      else (uint (last_message mdata) - uint (first_message mdata) + 1
            - clamped_sum (first_message mdata) (last_message mdata) (newsrc_list mdata))
           mod 2 ^ 32)"
    by (simp add: nntp_group_unread_stat_def unread_loop_word uint_span_minus)
next
  assume "last_message mdata \<noteq> 0 \<and> first_message mdata \<le> last_message mdata
        \<and> clamped_sum (first_message mdata) (last_message mdata) (newsrc_list mdata)
             \<le> uint (last_message mdata) - uint (first_message mdata) + 1
        \<and> uint (last_message mdata) - uint (first_message mdata) + 1 < 2 ^ 32"
  then show "uint (unread (nntp_group_unread_stat mdata)) = spec_unread_count mdata"
    by (intro spec_unread_agrees) simp_all
next
  show "unread (nntp_group_unread_stat (window 1 10\<lparr>newsrc_ent := Some [(1, 3), (5, 7)]\<rparr>)) = 4"
    by (simp add: nntp_group_unread_stat_def window_def new_mdata_def newsrc_list_def)
qed

theorem C3_unread_count_wraps_witness:
  "uint (unread (nntp_group_unread_stat (window 1 10\<lparr>newsrc_ent := Some [(1, 3), (5, 7)]\<rparr>)))
     = spec_unread_count (window 1 10\<lparr>newsrc_ent := Some [(1, 3), (5, 7)]\<rparr>)
   \<and> spec_unread_count (window 1 10\<lparr>newsrc_ent := Some [(1, 3), (5, 7)]\<rparr>) = 4"
  using C3_unread_count_wraps [of "window 1 10\<lparr>newsrc_ent := Some [(1, 3), (5, 7)]\<rparr>"]
  by (simp add: window_def new_mdata_def newsrc_list_def clamped_sum_def spec_unread_count_def)

text \<open>
  The claim C3 as stated fails: with the bounds [1, 10] and the overlapping entries
  [1, 10], [1, 10] the difference is negative, the specification's count is 0, and
  the code stores \<open>2 ^ 32 - 10\<close>.
\<close>

theorem C3_unread_not_clamped:
  "spec_unread_count (window 1 10\<lparr>newsrc_ent := Some [(1, 10), (1, 10)]\<rparr>) = 0
   \<and> unread (nntp_group_unread_stat (window 1 10\<lparr>newsrc_ent := Some [(1, 10), (1, 10)]\<rparr>))
       = 4294967286"
  by (simp add: nntp_group_unread_stat_def window_def new_mdata_def newsrc_list_def
      spec_unread_count_def clamped_sum_def)

subsection \<open>The generated entries\<close>

lemma newsrc_has_iff: "newsrc_has ents n = (\<exists>(f, l) \<in> set ents. f \<le> n \<and> n \<le> l)"
  by (induction ents) (auto split: if_splits)

lemma newsrc_has_append:
  "newsrc_has (xs @ [(f, l)]) n = (newsrc_has xs n \<or> (f \<le> n \<and> n \<le> l))"
  by (auto simp: newsrc_has_iff)


lemma unat_inc: "a < (b::anum_t) \<Longrightarrow> unat (a + 1) = unat a + 1"
proof -
  assume "a < b"
  then have "unat a + unat (1::anum_t) < 2 ^ LENGTH(32)"
    using unsigned_less [of b, where ?'a = nat] by (simp add: word_less_nat_alt)
  then show ?thesis
    using unat_add_lem [of a 1] by simp
qed

lemma unat_dec: "a < (b::anum_t) \<Longrightarrow> unat (b - 1) = unat b - 1"
  by (rule unat_minus_one) auto

lemma gen_step_cover:
  assumes lt: "lst < article_num e" and wf: "gen_wf fm (first, lst, series, ents)"
  shows "gen_wf fm (gen_step fm (first, lst, series, ents) e)"
    and "gen_lst (gen_step fm (first, lst, series, ents) e) = article_num e"
    and "n \<le> lst \<Longrightarrow>
           covopen (gen_step fm (first, lst, series, ents) e) n = covopen (first, lst, series, ents) n"
    and "covopen (gen_step fm (first, lst, series, ents) e) (article_num e)
           = (\<not> is_unread e \<or> article_num e < fm)"
proof -
  have inc: "unat (lst + 1) = unat lst + 1" using lt by (rule unat_inc)
  have dec: "unat (article_num e - 1) = unat (article_num e) - 1" using lt by (rule unat_dec)
  have ltn: "unat lst < unat (article_num e)" using lt by (simp add: word_less_nat_alt)
  have old: "\<forall>(f, l) \<in> set ents. unat l \<le> unat lst"
    using wf by (auto simp: word_le_nat_alt)
  show "gen_wf fm (gen_step fm (first, lst, series, ents) e)"
    using wf ltn old inc dec
    by (auto simp: Let_def word_le_nat_alt word_less_nat_alt)
  show "gen_lst (gen_step fm (first, lst, series, ents) e) = article_num e"
    by (simp add: Let_def)
  show "covopen (gen_step fm (first, lst, series, ents) e) n = covopen (first, lst, series, ents) n"
    if "n \<le> lst"
    using that wf ltn old inc dec
    by (auto simp: Let_def newsrc_has_append newsrc_has_iff word_le_nat_alt word_less_nat_alt)
  show "covopen (gen_step fm (first, lst, series, ents) e) (article_num e)
           = (\<not> is_unread e \<or> article_num e < fm)"
    using wf ltn old inc dec
    by (auto simp: Let_def is_unread_def newsrc_has_append newsrc_has_iff
        word_le_nat_alt word_less_nat_alt)
qed


lemma gen_loop_cover:
  assumes "sorted_wrt (<) (map article_num es)"
    and "\<forall>e \<in> set es. lst < article_num e"
    and "gen_wf fm (first, lst, series, ents)"
  shows "(\<forall>n. n \<le> lst \<longrightarrow>
            covopen (gen_loop fm (first, lst, series, ents) es) n
              = covopen (first, lst, series, ents) n)
       \<and> (\<forall>e \<in> set es.
            covopen (gen_loop fm (first, lst, series, ents) es) (article_num e)
              = (\<not> is_unread e \<or> article_num e < fm))"
  using assms
proof (induction es arbitrary: first lst series ents)
  case Nil
  then show ?case by simp
next
  case (Cons e es)
  obtain f1 l1 s1 e1 where st: "gen_step fm (first, lst, series, ents) e = (f1, l1, s1, e1)"
    by (cases "gen_step fm (first, lst, series, ents) e") auto
  have lt: "lst < article_num e" using Cons.prems(2) by simp
  note step = gen_step_cover [OF lt Cons.prems(3), unfolded st]
  have l1: "l1 = article_num e" using step(2) by simp
  have sorted': "sorted_wrt (<) (map article_num es)" using Cons.prems(1) by simp
  have above: "\<forall>x \<in> set es. l1 < article_num x" using Cons.prems(1) l1 by auto
  note IH = Cons.IH [OF sorted' above step(1)]
  have le: "lst \<le> l1" using lt l1 by simp
  have unf: "gen_loop fm (first, lst, series, ents) (e # es) = gen_loop fm (f1, l1, s1, e1) es"
    by (simp only: gen_loop.simps st)
  show ?case
    unfolding unf
  proof (intro conjI allI impI ballI)
    fix n assume n: "n \<le> lst"
    then have "n \<le> l1" using le by simp
    then show "covopen (gen_loop fm (f1, l1, s1, e1) es) n
                 = covopen (first, lst, series, ents) n"
      using IH step(3) [OF n] by simp
  next
    fix x assume "x \<in> set (e # es)"
    then consider "x = e" | "x \<in> set es" by auto
    then show "covopen (gen_loop fm (f1, l1, s1, e1) es) (article_num x)
                 = (\<not> is_unread x \<or> article_num x < fm)"
    proof cases
      case 1
      then show ?thesis using IH step(4) l1 by simp
    next
      case 2
      then show ?thesis using IH by simp
    qed
  qed
qed

lemma gen_entries_cover:
  assumes "sorted_wrt (<) (map article_num es)"
    and "\<forall>e \<in> set es. 0 < article_num e \<and> article_num e \<le> ll"
    and "e \<in> set es"
  shows "newsrc_has (gen_entries fm ll es) (article_num e) = (\<not> is_unread e \<or> article_num e < fm)"
proof -
  obtain f1 l1 s1 e1 where st: "gen_loop fm (1, 0, True, []) es = (f1, l1, s1, e1)"
    by (cases "gen_loop fm (1, 0, True, []) es") auto
  have "gen_wf fm (1, 0, True, [])" by simp
  from gen_loop_cover [OF assms(1) _ this] assms(2,3)
  have "covopen (f1, l1, s1, e1) (article_num e) = (\<not> is_unread e \<or> article_num e < fm)"
    by (simp add: st)
  moreover have "article_num e \<le> ll" using assms(2,3) by simp
  ultimately show ?thesis
    by (auto simp: gen_entries_def st newsrc_has_append)
qed

lemma gen_step_bounded:
  assumes "is_unread e \<Longrightarrow> article_num e \<in> A" and "gen_bounded A s"
  shows "gen_bounded A (gen_step fm s e)"
proof -
  obtain first lst series ents where s: "s = (first, lst, series, ents)"
    by (cases s) auto
  show ?thesis
    using assms unfolding s
    by (auto simp: Let_def is_unread_def)
qed

lemma gen_loop_bounded:
  assumes "unread_nums es \<subseteq> A" and "gen_bounded A s"
  shows "gen_bounded A (gen_loop fm s es)"
  using assms
proof (induction es arbitrary: s)
  case Nil
  then show ?case by simp
next
  case (Cons e es)
  have "is_unread e \<Longrightarrow> article_num e \<in> A"
    using Cons.prems(1) by (auto simp: unread_nums_def)
  then have "gen_bounded A (gen_step fm s e)"
    using Cons.prems(2) by (rule gen_step_bounded)
  moreover have "unread_nums es \<subseteq> A"
    using Cons.prems(1) by (auto simp: unread_nums_def)
  ultimately show ?case
    using Cons.IH by simp
qed

lemma gen_entries_bounded:
  "\<forall>(f, l) \<in> set (gen_entries fm ll es).
     (f = 1 \<or> f - 1 \<in> unread_nums es) \<and> (l = ll \<or> l + 1 \<in> unread_nums es)"
proof -
  obtain f1 l1 s1 e1 where st: "gen_loop fm (1, 0, True, []) es = (f1, l1, s1, e1)"
    by (cases "gen_loop fm (1, 0, True, []) es") auto
  have "gen_bounded (unread_nums es) (1, 0, True, [])" by simp
  with gen_loop_bounded [of es "unread_nums es" "(1, 0, True, [])" fm]
  have "gen_bounded (unread_nums es) (f1, l1, s1, e1)"
    by (simp add: st)
  then show ?thesis
    by (auto simp: gen_entries_def st)
qed

lemma gen_loop_snoc: "gen_loop fm s (xs @ [e]) = gen_step fm (gen_loop fm s xs) e"
  by (induction xs arbitrary: s) simp_all

lemma gen_loop_wf:
  assumes "sorted_wrt (<) (map article_num es)"
    and "\<forall>e \<in> set es. gen_lst s < article_num e"
    and "gen_wf fm s"
  shows "gen_wf fm (gen_loop fm s es)
       \<and> gen_lst (gen_loop fm s es) = (if es = [] then gen_lst s else article_num (last es))"
  using assms
proof (induction es arbitrary: s)
  case Nil
  then show ?case by simp
next
  case (Cons e es)
  obtain first lst series ents where s: "s = (first, lst, series, ents)"
    by (cases s) auto
  have lt: "lst < article_num e" using Cons.prems(2) by (simp add: s)
  have wf: "gen_wf fm (first, lst, series, ents)" using Cons.prems(3) by (simp only: s)
  note step = gen_step_cover(1,2) [OF lt wf]
  have sorted': "sorted_wrt (<) (map article_num es)" using Cons.prems(1) by simp
  have above: "\<forall>x \<in> set es. gen_lst (gen_step fm s e) < article_num x"
    using Cons.prems(1) step(2) by (auto simp: s)
  have "gen_wf fm (gen_step fm s e)" using step(1) by (simp only: s)
  note IH = Cons.IH [OF sorted' above this]
  show ?case
    using IH step(2) by (simp add: s del: gen_step.simps)
qed

lemma gen_step_end:
  assumes lt: "lst < article_num e" and wf: "gen_wf fm (first, lst, series, ents)"
    and st: "gen_step fm (first, lst, series, ents) e = (f1, l1, s1, e1)"
  shows "l1 = article_num e" and "s1 = (\<not> is_unread e \<or> article_num e < fm)"
    and "s1 \<Longrightarrow> f1 \<le> l1" and "\<forall>(f, l) \<in> set e1. l < l1"
proof -
  have inc: "unat (lst + 1) = unat lst + 1" using lt by (rule unat_inc)
  have dec: "unat (article_num e - 1) = unat (article_num e) - 1" using lt by (rule unat_dec)
  have ltn: "unat lst < unat (article_num e)" using lt by (simp add: word_less_nat_alt)
  have old: "unat l \<le> unat lst" if "(f, l) \<in> set ents" for f l
    using wf that by (auto simp: word_le_nat_alt)
  show "l1 = article_num e"
    using st by (auto simp: Let_def split: if_splits)
  show "s1 = (\<not> is_unread e \<or> article_num e < fm)"
    using st wf ltn by (auto simp: Let_def is_unread_def word_le_nat_alt word_less_nat_alt split: if_splits)
  show "f1 \<le> l1" if s1
    using that st wf ltn inc by (auto simp: Let_def word_le_nat_alt word_less_nat_alt split: if_splits)
  have e1: "e1 = ents \<or> e1 = ents @ [(first, article_num e - 1)]"
    using st by (auto simp: Let_def split: if_splits)
  have "unat l < unat (article_num e)" if "(f, l) \<in> set e1" for f l
  proof (cases "(f, l) \<in> set ents")
    case True
    then show ?thesis using old [of f l] ltn by simp
  next
    case False
    then have "l = article_num e - 1" using e1 that by auto
    then show ?thesis using dec ltn by simp
  qed
  then show "\<forall>(f, l) \<in> set e1. l < l1"
    using \<open>l1 = article_num e\<close> by (auto simp: word_less_nat_alt)
qed

lemma gen_entries_trailing:
  assumes "sorted_wrt (<) (map article_num es)"
    and "\<forall>e \<in> set es. 0 < article_num e \<and> article_num e \<le> ll"
  shows "(\<exists>f. (f, ll) \<in> set (gen_entries fm ll es))
           = (if es = [] then 1 \<le> ll else \<not> is_unread (last es) \<or> article_num (last es) < fm)"
    and "(f, ll) \<in> set (gen_entries fm ll es) \<Longrightarrow> last (gen_entries fm ll es) = (f, ll)"
proof -
  have "(\<exists>f. (f, ll) \<in> set (gen_entries fm ll es))
           = (if es = [] then 1 \<le> ll else \<not> is_unread (last es) \<or> article_num (last es) < fm)
      \<and> (\<forall>f. (f, ll) \<in> set (gen_entries fm ll es) \<longrightarrow> last (gen_entries fm ll es) = (f, ll))"
  proof (cases es rule: rev_cases)
    case Nil
    then show ?thesis by (auto simp: gen_entries_def)
  next
    case (snoc xs e)
    obtain first lst series ents where s: "gen_loop fm (1, 0, True, []) xs = (first, lst, series, ents)"
      by (cases "gen_loop fm (1, 0, True, []) xs") auto
    obtain f1 l1 s1 e1 where st: "gen_step fm (first, lst, series, ents) e = (f1, l1, s1, e1)"
      by (cases "gen_step fm (first, lst, series, ents) e") auto
    have sxs: "sorted_wrt (<) (map article_num xs)"
      using assms(1) by (simp add: snoc sorted_wrt_append)
    have pos: "\<forall>x \<in> set xs. gen_lst (1, 0, True, []) < article_num x"
      using assms(2) by (simp add: snoc)
    have wf0: "gen_wf fm (1, 0, True, [])" by simp
    note both = gen_loop_wf [OF sxs pos wf0, unfolded s]
    have wf: "gen_wf fm (first, lst, series, ents)"
      using both by (rule conjunct1)
    have l: "lst = (if xs = [] then 0 else article_num (last xs))"
      using conjunct2 [OF both] by simp
    have lt: "lst < article_num e"
    proof (cases "xs = []")
      case True
      then show ?thesis using l assms(2) by (simp add: snoc)
    next
      case False
      then have "last xs \<in> set xs" by simp
      then have "article_num (last xs) < article_num e"
        using assms(1) by (simp add: snoc sorted_wrt_append)
      then show ?thesis using l False by simp
    qed
    note e = gen_step_end [OF lt wf st]
    have le: "l1 \<le> ll" using e(1) assms(2) by (simp add: snoc)
    have loop: "gen_loop fm (1, 0, True, []) es = (f1, l1, s1, e1)"
      by (simp only: snoc gen_loop_snoc s st)
    have ne: "\<forall>(f, l) \<in> set e1. l \<noteq> ll" using e(4) le by auto
    have ge: "gen_entries fm ll es = (if s1 then e1 @ [(f1, ll)] else e1)"
      using e(3) le by (auto simp: gen_entries_def loop)
    show ?thesis
      unfolding ge using ne e(2) by (auto simp: snoc)
  qed
  then show "(\<exists>f. (f, ll) \<in> set (gen_entries fm ll es))
           = (if es = [] then 1 \<le> ll else \<not> is_unread (last es) \<or> article_num (last es) < fm)"
    and "(f, ll) \<in> set (gen_entries fm ll es) \<Longrightarrow> last (gen_entries fm ll es) = (f, ll)"
    by blast+
qed

text \<open>
  C1, as the code has it. Let the loaded articles be in ascending order of article
  number, numbered from 1 on and not beyond \<^verbatim>\<open>last_loaded\<close>. The scan of
  \<^verbatim>\<open>nntp_newsrc_gen_entries\<close> takes an article as unread only when it is neither
  read nor deleted and its number is at least \<^verbatim>\<open>first_message\<close>. So a loaded
  article lies in a produced entry if and only if it is read, or deleted, or numbered
  below \<^verbatim>\<open>first_message\<close>. The runs are maximal: every entry starts at 1 or right
  after an unread loaded article, and ends right before one or at
  \<^verbatim>\<open>last_loaded\<close>. An entry that ends at \<^verbatim>\<open>last_loaded\<close> is the trailing one,
  the last of the list, and it is produced exactly when the scan ends inside a run:
  when the last loaded article is read, deleted or below \<^verbatim>\<open>first_message\<close>, or,
  with no article loaded, when \<^verbatim>\<open>last_loaded\<close> is at least 1. The articles 1 to 5
  with the read flags T, T, F, T, F, \<^verbatim>\<open>first_message = 1\<close> and
  \<^verbatim>\<open>last_loaded = 5\<close> give the entries (1, 2), (4, 4).
\<close>

theorem C1_gen_entries_runs:
  assumes "sorted_wrt (<) (map article_num es)"
    and "\<forall>e \<in> set es. 0 < article_num e \<and> article_num e \<le> ll"
  shows "(\<forall>e \<in> set es. newsrc_has (gen_entries fm ll es) (article_num e)
            = (read e \<or> deleted_e e \<or> article_num e < fm))
     \<and> (\<forall>(f, l) \<in> set (gen_entries fm ll es).
            (f = 1 \<or> f - 1 \<in> unread_nums es) \<and> (l = ll \<or> l + 1 \<in> unread_nums es))
     \<and> (\<exists>f. (f, ll) \<in> set (gen_entries fm ll es))
           = (if es = [] then 1 \<le> ll
              else read (last es) \<or> deleted_e (last es) \<or> article_num (last es) < fm)
     \<and> (\<forall>f. (f, ll) \<in> set (gen_entries fm ll es) \<longrightarrow> last (gen_entries fm ll es) = (f, ll))
     \<and> gen_entries 1 5 [mk_email 1 True, mk_email 2 True, mk_email 3 False,
                         mk_email 4 True, mk_email 5 False] = [(1, 2), (4, 4)]"
proof (intro conjI allI impI)
  show "\<forall>e \<in> set es. newsrc_has (gen_entries fm ll es) (article_num e)
            = (read e \<or> deleted_e e \<or> article_num e < fm)"
    using gen_entries_cover [OF assms] by (auto simp: is_unread_def)
  show "\<forall>(f, l) \<in> set (gen_entries fm ll es).
            (f = 1 \<or> f - 1 \<in> unread_nums es) \<and> (l = ll \<or> l + 1 \<in> unread_nums es)"
    by (rule gen_entries_bounded)
  show "(\<exists>f. (f, ll) \<in> set (gen_entries fm ll es))
           = (if es = [] then 1 \<le> ll
              else read (last es) \<or> deleted_e (last es) \<or> article_num (last es) < fm)"
    using gen_entries_trailing(1) [OF assms, of fm] by (auto simp: is_unread_def)
  show "last (gen_entries fm ll es) = (f, ll)" if "(f, ll) \<in> set (gen_entries fm ll es)" for f
    using that by (rule gen_entries_trailing(2) [OF assms])
  show "gen_entries 1 5 [mk_email 1 True, mk_email 2 True, mk_email 3 False,
                         mk_email 4 True, mk_email 5 False] = [(1, 2), (4, 4)]"
    by (simp add: gen_entries_def mk_email_def)
qed

theorem C1_gen_entries_runs_witness:
  "newsrc_has (gen_entries 1 5 [mk_email 1 True, mk_email 2 True, mk_email 3 False,
                         mk_email 4 True, mk_email 5 False]) 4
   \<and> \<not> newsrc_has (gen_entries 1 5 [mk_email 1 True, mk_email 2 True, mk_email 3 False,
                         mk_email 4 True, mk_email 5 False]) 3
   \<and> (\<forall>f. (f, 5) \<notin> set (gen_entries 1 5 [mk_email 1 True, mk_email 2 True, mk_email 3 False,
                         mk_email 4 True, mk_email 5 False]))
   \<and> last (gen_entries 1 4 [mk_email 1 True, mk_email 2 True, mk_email 3 False,
                         mk_email 4 True]) = (4, 4)"
proof -
  have a: "newsrc_has (gen_entries 1 5 [mk_email 1 True, mk_email 2 True, mk_email 3 False,
                         mk_email 4 True, mk_email 5 False]) 4
   \<and> \<not> newsrc_has (gen_entries 1 5 [mk_email 1 True, mk_email 2 True, mk_email 3 False,
                         mk_email 4 True, mk_email 5 False]) 3
   \<and> (\<forall>f. (f, 5) \<notin> set (gen_entries 1 5 [mk_email 1 True, mk_email 2 True, mk_email 3 False,
                         mk_email 4 True, mk_email 5 False]))"
    using C1_gen_entries_runs [of "[mk_email 1 True, mk_email 2 True, mk_email 3 False,
                         mk_email 4 True, mk_email 5 False]" 5 1]
    by (simp add: mk_email_def)
  have m: "(4, 4) \<in> set (gen_entries 1 4 [mk_email 1 True, mk_email 2 True, mk_email 3 False,
                         mk_email 4 True])"
    by (simp add: gen_entries_def mk_email_def)
  have b: "last (gen_entries 1 4 [mk_email 1 True, mk_email 2 True, mk_email 3 False,
                         mk_email 4 True]) = (4, 4)"
    using C1_gen_entries_runs [of "[mk_email 1 True, mk_email 2 True, mk_email 3 False,
                         mk_email 4 True]" 4 1] m
    by (simp add: mk_email_def)
  show ?thesis using a b by simp
qed

text \<open>
  The claim C1 as stated fails when loaded articles lie below \<^verbatim>\<open>first_message\<close>:
  with \<^verbatim>\<open>first_message = 3\<close>, \<^verbatim>\<open>last_loaded = 3\<close> and the articles 1, 2, 3
  loaded, none of them read or deleted, the function produces the entry (1, 2),
  which holds the unread articles 1 and 2; the runs of read or deleted articles are
  none.
\<close>

theorem C1_below_first_counterexample:
  "gen_entries 3 3 [mk_email 1 False, mk_email 2 False, mk_email 3 False] = [(1, 2)]
   \<and> newsrc_has (gen_entries 3 3 [mk_email 1 False, mk_email 2 False, mk_email 3 False]) 1
   \<and> \<not> read (mk_email 1 False) \<and> \<not> deleted_e (mk_email 1 False)"
  by (simp add: gen_entries_def mk_email_def word_le_nat_alt)

subsection \<open>Catching up and uncatching up\<close>

lemma mdata_get_modify:
  "mdata_get (mdata_modify adata i f) j =
     (if j = i then map_option f (mdata_get adata i) else mdata_get adata j)"
  by (auto simp: mdata_get_def mdata_modify_def mdata_set_def split: option.splits)

lemma groups_hash_modify: "groups_hash (mdata_modify adata i f) = groups_hash adata"
  by (auto simp: mdata_modify_def mdata_set_def split: option.splits)

text \<open>
  C4, as the code has it. For a group that is found under its non-empty name and has
  \<^verbatim>\<open>first_message = 1\<close>: when the group has an entry array, catching up replaces
  it by the single entry \<open>(1, last_message)\<close>, and uncatching up afterwards leaves the
  single entry (1, 0), whatever \<^verbatim>\<open>last_message\<close> is; when the group has no entry
  array (NULL), both leave it without one.
\<close>

theorem C4_catchup_uncatchup:
  assumes "grp \<noteq> []" and "groups_hash adata grp = Some i"
    and "mdata_get adata i = Some mdata" and "first_message mdata = 1"
  shows "map_option newsrc_ent (mdata_get (fst (snd (mutt_newsgroup_catchup m adata grp))) i)
           = Some (map_option (\<lambda>es. [(1, last_message mdata)]) (newsrc_ent mdata))
       \<and> map_option newsrc_ent (mdata_get (catchup_uncatchup m adata grp) i)
           = Some (map_option (\<lambda>es. [(1, 0)]) (newsrc_ent mdata))"
  using assms
  by (auto simp: catchup_uncatchup_def mutt_newsgroup_catchup_def mutt_newsgroup_uncatchup_def
      groups_hash_modify mdata_get_modify uncatchup_mdata_def Let_def
      split: option.splits)

theorem C4_catchup_uncatchup_witness:
  "map_option newsrc_ent (mdata_get (catchup_uncatchup None
      (one_group ((new_mdata ''g'')\<lparr>first_message := 1, last_message := 7, newsrc_ent := Some [(3, 4)]\<rparr>)) ''g'') 0)
    = Some (Some [(1, 0)])"
  using C4_catchup_uncatchup [of "''g''" "one_group ((new_mdata ''g'')\<lparr>first_message := 1, last_message := 7, newsrc_ent := Some [(3, 4)]\<rparr>)" 0
     "(new_mdata ''g'')\<lparr>first_message := 1, last_message := 7, newsrc_ent := Some [(3, 4)]\<rparr>" None]
  by (simp add: one_group_def new_mdata_def mdata_get_def)

text \<open>
  The claim C4 as stated fails for a group without an entry array: after catching up
  and uncatching up, \<^verbatim>\<open>newsrc_ent\<close> is still NULL, not the entry (1, 0).
\<close>

theorem C4_no_entries_counterexample:
  "map_option newsrc_ent (mdata_get (catchup_uncatchup None
      (one_group ((new_mdata ''g'')\<lparr>first_message := 1, last_message := 7\<rparr>)) ''g'') 0)
    = Some None"
  by (simp add: catchup_uncatchup_def mutt_newsgroup_catchup_def mutt_newsgroup_uncatchup_def
      one_group_def new_mdata_def mdata_get_def mdata_modify_def mdata_set_def uncatchup_mdata_def
      is_open_group_def)

subsection \<open>Names that the hash does not know\<close>

text \<open>
  C10. For a name that is not in \<^verbatim>\<open>groups_hash\<close>: unsubscribing, catching up and
  uncatching up return NULL and leave the account (and the mailbox) as they were, so no
  group is made; subscribing under a non-empty name returns the new group, placed at
  the end of \<^verbatim>\<open>groups_list\<close> and entered in the hash, subscribed and with the
  single entry (1, 0).
\<close>

theorem C10_absent_name:
  assumes "groups_hash adata grp = None"
  shows "mutt_newsgroup_unsubscribe save_unsub adata grp = (None, adata)
       \<and> mutt_newsgroup_catchup m adata grp = (None, adata, m)
       \<and> mutt_newsgroup_uncatchup m adata grp = (None, adata, m)
       \<and> (grp \<noteq> [] \<longrightarrow>
            mutt_newsgroup_subscribe adata grp =
              (Some (length (groups_list adata)),
               adata\<lparr>groups_hash := (groups_hash adata)(grp \<mapsto> length (groups_list adata)),
                     groups_list := groups_list adata @
                       [Some ((new_mdata grp)\<lparr>subscribed := True, newsrc_ent := Some [(1, 0)]\<rparr>)]\<rparr>))"
  using assms
  by (auto simp: mutt_newsgroup_unsubscribe_def mutt_newsgroup_catchup_def
      mutt_newsgroup_uncatchup_def mutt_newsgroup_subscribe_def mdata_find_def Let_def
      mdata_modify_def mdata_get_def mdata_set_def new_mdata_def)

theorem C10_absent_name_witness:
  "mutt_newsgroup_unsubscribe False two_groups ''c'' = (None, two_groups)
   \<and> fst (mutt_newsgroup_subscribe two_groups ''c'') = Some 2"
  using C10_absent_name [of two_groups "''c''" False None]
  by (simp add: two_groups_def)

subsection \<open>The next group with unread articles\<close>

lemma live_unread_loop_count:
  "live_unread_loop es u = u + of_nat (length (filter (\<lambda>e. \<not> read e \<and> \<not> deleted_e e) es))"
  by (induction es arbitrary: u) simp_all

lemma live_unread_count:
  assumes "length (emails m) < 2 ^ 32"
  shows "unat (live_unread m) = live_count m"
proof -
  have "live_count m \<le> length (emails m)"
    by (simp add: live_count_def)
  then have "live_count m < 2 ^ LENGTH(32)"
    using assms by simp
  then have "unat (of_nat (live_count m) :: 32 word) = live_count m"
    by (simp add: unat_of_nat)
  then show ?thesis
    by (simp add: live_unread_def live_unread_loop_count live_count_def)
qed

lemma live_unread_zero:
  assumes "length (emails m) < 2 ^ 32"
  shows "(live_unread m = 0) = (live_count m = 0)"
proof -
  have "(live_unread m = 0) = (unat (live_unread m) = 0)"
    by (simp add: unat_eq_0)
  then show ?thesis
    by (simp only: live_unread_count [OF assms])
qed

lemma nntp_mailbox_loop_find:
  assumes "length (emails m) < 2 ^ 32"
  shows "nntp_mailbox_loop og m gs = List.find (next_unread_ok og m) (live_groups gs)"
proof (induction gs)
  case Nil
  show ?case by simp
next
  case (Cons g gs)
  then show ?case
    by (cases g) (auto simp: next_unread_ok_def live_unread_zero [OF assms])
qed

text \<open>
  C8. Let the open mailbox hold fewer than \<open>2 ^ 32\<close> e-mails, as it does since
  \<^verbatim>\<open>msg_count\<close> is an int. Called with that mailbox, \<^verbatim>\<open>nntp_mailbox\<close>
  returns the first group in the order of \<^verbatim>\<open>groups_list\<close> that is subscribed and
  has a stored unread count other than zero, passing over the group whose name is that
  of the open NNTP mailbox when its live count is zero. The live count, the value of
  the counter of the inner loop, is the number of e-mails of the mailbox that are
  neither read nor deleted. So the open group is never the result when every e-mail is
  read or deleted, whatever its stored count says, and it is the result when it is the
  first subscribed group with a stored count other than zero and some e-mail is
  neither read nor deleted. Called without a mailbox, the function returns at once
  and names no group.
\<close>

theorem C8_next_unread_group:
  assumes "length (emails m) < 2 ^ 32"
  shows "nntp_mailbox adata (Some m)
     = List.find (next_unread_ok (open_group adata m) m) (live_groups (groups_list adata))
   \<and> unat (live_unread m) = length (filter (\<lambda>e. \<not> read e \<and> \<not> deleted_e e) (emails m))
   \<and> (magic m = MUTT_NNTP \<and> (\<forall>e \<in> set (emails m). read e \<or> deleted_e e)
        \<and> nntp_mailbox adata (Some m) = Some mdata
        \<longrightarrow> open_group adata m \<noteq> Some (group mdata))
   \<and> (groups_list adata = Some mdata # gs \<and> subscribed mdata \<and> unread mdata \<noteq> 0
        \<and> (\<exists>e \<in> set (emails m). \<not> read e \<and> \<not> deleted_e e)
        \<longrightarrow> nntp_mailbox adata (Some m) = Some mdata)
   \<and> nntp_mailbox adata None = None"
proof -
  have eq: "nntp_mailbox adata (Some m)
     = List.find (next_unread_ok (open_group adata m) m) (live_groups (groups_list adata))"
    by (simp add: nntp_mailbox_def nntp_mailbox_loop_find [OF assms])
  have cnt: "unat (live_unread m) = length (filter (\<lambda>e. \<not> read e \<and> \<not> deleted_e e) (emails m))"
    using live_unread_count [OF assms] by (simp add: live_count_def)
  have zero: "(live_count m = 0) = (\<forall>e \<in> set (emails m). read e \<or> deleted_e e)"
    by (auto simp: live_count_def filter_empty_conv)
  have skip: "open_group adata m \<noteq> Some (group mdata)"
    if "magic m = MUTT_NNTP" "\<forall>e \<in> set (emails m). read e \<or> deleted_e e"
      "nntp_mailbox adata (Some m) = Some mdata"
  proof -
    have "next_unread_ok (open_group adata m) m mdata"
      using that(3) unfolding eq by (auto simp: find_Some_iff)
    then show ?thesis
      using that(1,2) zero by (auto simp: next_unread_ok_def)
  qed
  have take: "nntp_mailbox adata (Some m) = Some mdata"
    if "groups_list adata = Some mdata # gs" "subscribed mdata" "unread mdata \<noteq> 0"
      "\<exists>e \<in> set (emails m). \<not> read e \<and> \<not> deleted_e e"
  proof -
    have "live_count m \<noteq> 0" using that(4) zero by auto
    then have "next_unread_ok (open_group adata m) m mdata"
      using that(2,3) by (simp add: next_unread_ok_def)
    then show ?thesis
      unfolding eq by (simp add: that(1))
  qed
  have "nntp_mailbox adata None = None"
    by (simp add: nntp_mailbox_def)
  then show ?thesis
    using eq cnt skip take by blast
qed

theorem C8_next_unread_group_witness:
  "nntp_mailbox two_groups
     (Some \<lparr>magic = MUTT_NNTP, emails = [mk_email 1 True, mk_email 2 True], mdata_ptr = 0\<rparr>)
   = Some ((new_mdata ''b'')\<lparr>subscribed := True, unread := 2\<rparr>)
   \<and> nntp_mailbox two_groups
     (Some \<lparr>magic = MUTT_NNTP, emails = [mk_email 1 True, mk_email 2 False], mdata_ptr = 0\<rparr>)
   = Some ((new_mdata ''a'')\<lparr>subscribed := True, unread := 3\<rparr>)
   \<and> unat (live_unread
        \<lparr>magic = MUTT_NNTP, emails = [mk_email 1 True, mk_email 2 False], mdata_ptr = 0\<rparr>) = 1"
proof -
  have a: "nntp_mailbox two_groups
     (Some \<lparr>magic = MUTT_NNTP, emails = [mk_email 1 True, mk_email 2 True], mdata_ptr = 0\<rparr>)
   = Some ((new_mdata ''b'')\<lparr>subscribed := True, unread := 2\<rparr>)"
    using C8_next_unread_group [of
      "\<lparr>magic = MUTT_NNTP, emails = [mk_email 1 True, mk_email 2 True], mdata_ptr = 0\<rparr>"
      two_groups "(new_mdata ''b'')\<lparr>subscribed := True, unread := 2\<rparr>" "[]"]
    by (simp add: two_groups_def next_unread_ok_def open_group_def mdata_get_def live_count_def
        mk_email_def new_mdata_def)
  have b: "nntp_mailbox two_groups
     (Some \<lparr>magic = MUTT_NNTP, emails = [mk_email 1 True, mk_email 2 False], mdata_ptr = 0\<rparr>)
   = Some ((new_mdata ''a'')\<lparr>subscribed := True, unread := 3\<rparr>)
   \<and> unat (live_unread
        \<lparr>magic = MUTT_NNTP, emails = [mk_email 1 True, mk_email 2 False], mdata_ptr = 0\<rparr>) = 1"
    using C8_next_unread_group [of
      "\<lparr>magic = MUTT_NNTP, emails = [mk_email 1 True, mk_email 2 False], mdata_ptr = 0\<rparr>"
      two_groups "(new_mdata ''a'')\<lparr>subscribed := True, unread := 3\<rparr>"
      "[Some ((new_mdata ''b'')\<lparr>subscribed := True, unread := 2\<rparr>)]"]
    by (simp add: two_groups_def next_unread_ok_def open_group_def mdata_get_def live_count_def
        mk_email_def new_mdata_def)
  show ?thesis
    using a b by simp
qed

subsection \<open>A newsrc file that has not changed\<close>

text \<open>
  C5. When \<^verbatim>\<open>stat\<close> reports the size and the modification time that the account
  recorded, \<^verbatim>\<open>nntp_newsrc_parse\<close> returns 0 and changes nothing in the account but
  the file handle: the groups, with their subscribed flags, entries and unread counts,
  are as they were, whatever the caller did to them since the last parse.
\<close>

theorem C5_unchanged:
  assumes "size adata = st_size" and "mtime adata = st_mtime"
  shows "nntp_newsrc_parse (Opened st_size st_mtime lines) adata = (0, adata\<lparr>fp_newsrc := True\<rparr>)
       \<and> groups_list (snd (nntp_newsrc_parse (Opened st_size st_mtime lines) adata))
           = groups_list adata
       \<and> groups_hash (snd (nntp_newsrc_parse (Opened st_size st_mtime lines) adata))
           = groups_hash adata"
  using assms by (simp add: nntp_newsrc_parse_def)

theorem C5_unchanged_witness:
  "nntp_newsrc_parse (Opened 0 0 [''a: 1-5'']) two_groups = (0, two_groups\<lparr>fp_newsrc := True\<rparr>)"
  using C5_unchanged [of two_groups 0 0 "[''a: 1-5'']"]
  by (simp add: two_groups_def)

subsection \<open>Replacing a file\<close>

lemma tmp_distinct:
  assumes "length filename + 4 < PATH_MAX"
  shows "snprintf PATH_MAX (filename @ ''.tmp'') = filename @ ''.tmp''"
    and "filename @ ''.tmp'' \<noteq> filename"
  using assms by (simp_all add: snprintf_def)

text \<open>
  C7, as the code has it. Let the temporary file, named \<^verbatim>\<open>filename.tmp\<close> within the
  \<^verbatim>\<open>PATH_MAX\<close> characters of the buffer, be another file than the target, as it is
  whenever \<^verbatim>\<open>filename.tmp\<close> fits the buffer. When any of opening, writing, closing
  or renaming fails, \<^verbatim>\<open>update_file\<close> returns -1 and the target is as it was;
  \<^verbatim>\<open>nntp_newsrc_update\<close> then returns -1 as well and leaves the account as it
  was. What becomes of the temporary file depends on where the failure was. When it
  could not be opened, its name is cleared, \<^verbatim>\<open>unlink\<close> is not called and the file
  system is untouched: a file of that name that was there before is still there. When
  a later call fails, \<^verbatim>\<open>unlink\<close> is called and its result ignored: the temporary
  file is gone when \<^verbatim>\<open>unlink\<close> succeeds, and stays behind with what was written
  to it when \<^verbatim>\<open>unlink\<close> fails. When all calls succeed, the result is 0, the
  target holds the new content and the temporary file is gone.
\<close>

theorem C7_update_file_atomic:
  assumes "tmpfile = snprintf PATH_MAX (filename @ ''.tmp'')" and "tmpfile \<noteq> filename"
  shows "(\<not> (fopen_ok io \<and> fputs_ok io \<and> fclose_ok io \<and> rename_ok io) \<longrightarrow>
            fst (update_file io fs filename buf) = - 1
            \<and> snd (update_file io fs filename buf) filename = fs filename
            \<and> (\<forall>path. path \<noteq> tmpfile \<longrightarrow> snd (update_file io fs filename buf) path = fs path)
            \<and> (\<not> fopen_ok io \<longrightarrow> snd (update_file io fs filename buf) = fs)
            \<and> (fopen_ok io \<and> unlink_ok io \<longrightarrow>
                  snd (update_file io fs filename buf) = fs(tmpfile := None))
            \<and> (fopen_ok io \<and> \<not> unlink_ok io \<longrightarrow>
                  snd (update_file io fs filename buf) =
                    fs(tmpfile \<mapsto> (if fputs_ok io \<and> fclose_ok io then buf else tmp_content io)))
            \<and> nntp_newsrc_update io st fs (Some filename) adata
                = (- 1, snd (update_file io fs filename
                             (snd (newsrc_buf (10240, []) (groups_list adata)))), adata))
       \<and> (fopen_ok io \<and> fputs_ok io \<and> fclose_ok io \<and> rename_ok io \<longrightarrow>
            update_file io fs filename buf = (0, fs(filename \<mapsto> buf, tmpfile := None)))
       \<and> (length filename + 4 < PATH_MAX \<longrightarrow> tmpfile = filename @ ''.tmp'')"
proof (intro conjI impI allI)
  assume f: "\<not> (fopen_ok io \<and> fputs_ok io \<and> fclose_ok io \<and> rename_ok io)"
  show rc: "fst (update_file io fs filename buf) = - 1" for buf
    using f by (auto simp: update_file_def Let_def)
  show "snd (update_file io fs filename buf) filename = fs filename"
    using f assms by (auto simp: update_file_def Let_def unlink_def)
  show "snd (update_file io fs filename buf) path = fs path" if "path \<noteq> tmpfile" for path
    using f that assms by (auto simp: update_file_def Let_def unlink_def)
  show "snd (update_file io fs filename buf) = fs" if "\<not> fopen_ok io"
    using that by (simp add: update_file_def Let_def)
  show "snd (update_file io fs filename buf) = fs(tmpfile := None)"
    if "fopen_ok io \<and> unlink_ok io"
    using f that assms by (auto simp: update_file_def Let_def unlink_def)
  show "snd (update_file io fs filename buf) =
          fs(tmpfile \<mapsto> (if fputs_ok io \<and> fclose_ok io then buf else tmp_content io))"
    if "fopen_ok io \<and> \<not> unlink_ok io"
    using f that assms by (auto simp: update_file_def Let_def unlink_def)
  show "nntp_newsrc_update io st fs (Some filename) adata
          = (- 1, snd (update_file io fs filename
                       (snd (newsrc_buf (10240, []) (groups_list adata)))), adata)"
  proof (cases "update_file io fs filename (snd (newsrc_buf (10240, []) (groups_list adata)))")
    case (Pair r fs1)
    then have "r = - 1"
      using rc [of "snd (newsrc_buf (10240, []) (groups_list adata))"] by simp
    then show ?thesis by (simp add: nntp_newsrc_update_def Let_def Pair)
  qed
next
  assume "fopen_ok io \<and> fputs_ok io \<and> fclose_ok io \<and> rename_ok io"
  then show "update_file io fs filename buf = (0, fs(filename \<mapsto> buf, tmpfile := None))"
    using assms by (auto simp: update_file_def Let_def rename_def)
next
  assume "length filename + 4 < PATH_MAX"
  then show "tmpfile = filename @ ''.tmp''"
    using assms(1) by (simp add: tmp_distinct)
qed

theorem C7_update_file_atomic_witness:
  "update_file \<lparr>fopen_ok = True, fputs_ok = False, fclose_ok = True, rename_ok = True,
                 unlink_ok = True, tmp_content = ''a: 1''\<rparr>
       [''newsrc'' \<mapsto> ''old''] ''newsrc'' ''a: 1-5''
     = (- 1, [''newsrc'' \<mapsto> ''old''])
   \<and> update_file \<lparr>fopen_ok = True, fputs_ok = True, fclose_ok = True, rename_ok = True,
                 unlink_ok = True, tmp_content = []\<rparr>
       [''newsrc'' \<mapsto> ''old''] ''newsrc'' ''a: 1-5''
     = (0, [''newsrc'' \<mapsto> ''a: 1-5''])
   \<and> update_file \<lparr>fopen_ok = True, fputs_ok = True, fclose_ok = True, rename_ok = False,
                 unlink_ok = False, tmp_content = []\<rparr>
       [''newsrc'' \<mapsto> ''old''] ''newsrc'' ''a: 1-5''
     = (- 1, [''newsrc'' \<mapsto> ''old'', ''newsrc.tmp'' \<mapsto> ''a: 1-5''])
   \<and> update_file \<lparr>fopen_ok = False, fputs_ok = True, fclose_ok = True, rename_ok = True,
                 unlink_ok = True, tmp_content = []\<rparr>
       [''newsrc'' \<mapsto> ''old''] ''newsrc'' ''a: 1-5''
     = (- 1, [''newsrc'' \<mapsto> ''old''])"
proof -
  have tmp: "''newsrc.tmp'' = snprintf PATH_MAX (''newsrc'' @ ''.tmp'')"
    by (simp add: snprintf_def PATH_MAX_def)
  have sib: "''newsrc.tmp'' \<noteq> ''newsrc''" by simp
  note inst = C7_update_file_atomic [OF tmp sib, where fs = "[''newsrc'' \<mapsto> ''old'']"
      and buf = "''a: 1-5''"]
  have a: "update_file \<lparr>fopen_ok = True, fputs_ok = False, fclose_ok = True, rename_ok = True,
                 unlink_ok = True, tmp_content = ''a: 1''\<rparr>
            [''newsrc'' \<mapsto> ''old''] ''newsrc'' ''a: 1-5''
            = (- 1, [''newsrc'' \<mapsto> ''old''](''newsrc.tmp'' := None))"
    using inst [where io = "\<lparr>fopen_ok = True, fputs_ok = False, fclose_ok = True,
        rename_ok = True, unlink_ok = True, tmp_content = ''a: 1''\<rparr>"]
    by (simp add: prod_eq_iff)
  have c: "update_file \<lparr>fopen_ok = True, fputs_ok = True, fclose_ok = True, rename_ok = True,
                 unlink_ok = True, tmp_content = []\<rparr>
            [''newsrc'' \<mapsto> ''old''] ''newsrc'' ''a: 1-5''
     = (0, [''newsrc'' \<mapsto> ''old''](''newsrc'' \<mapsto> ''a: 1-5'', ''newsrc.tmp'' := None))"
    using inst [where io = "\<lparr>fopen_ok = True, fputs_ok = True, fclose_ok = True,
        rename_ok = True, unlink_ok = True, tmp_content = []\<rparr>"]
    by simp
  have u: "update_file \<lparr>fopen_ok = True, fputs_ok = True, fclose_ok = True, rename_ok = False,
                 unlink_ok = False, tmp_content = []\<rparr>
            [''newsrc'' \<mapsto> ''old''] ''newsrc'' ''a: 1-5''
            = (- 1, [''newsrc'' \<mapsto> ''old'', ''newsrc.tmp'' \<mapsto> ''a: 1-5''])"
    using inst [where io = "\<lparr>fopen_ok = True, fputs_ok = True, fclose_ok = True,
        rename_ok = False, unlink_ok = False, tmp_content = []\<rparr>"]
    by (simp add: prod_eq_iff)
  have o: "update_file \<lparr>fopen_ok = False, fputs_ok = True, fclose_ok = True, rename_ok = True,
                 unlink_ok = True, tmp_content = []\<rparr>
            [''newsrc'' \<mapsto> ''old''] ''newsrc'' ''a: 1-5''
            = (- 1, [''newsrc'' \<mapsto> ''old''])"
    using inst [where io = "\<lparr>fopen_ok = False, fputs_ok = True, fclose_ok = True,
        rename_ok = True, unlink_ok = True, tmp_content = []\<rparr>"]
    by (simp add: prod_eq_iff)
  have d: "[''newsrc'' \<mapsto> ''old''](''newsrc.tmp'' := None) = [''newsrc'' \<mapsto> ''old'']"
    by (rule ext) simp
  have e: "[''newsrc'' \<mapsto> ''old''](''newsrc'' \<mapsto> ''a: 1-5'', ''newsrc.tmp'' := None)
            = [''newsrc'' \<mapsto> ''a: 1-5'']"
    by (rule ext) simp
  show ?thesis
    using a c u o d e by simp
qed

text \<open>
  The claim C7 as stated fails for the temporary file. When the temporary file cannot
  be opened (say a file of that name is there and may not be written), the function
  clears the name and removes nothing: the file is still there afterwards. And when
  writing fails and the \<^verbatim>\<open>unlink\<close> that follows fails too, the temporary file stays
  behind with the part that was written. The target is untouched in both cases.
\<close>

theorem C7_temporary_file_left_counterexample:
  "update_file \<lparr>fopen_ok = False, fputs_ok = True, fclose_ok = True, rename_ok = True,
                 unlink_ok = True, tmp_content = []\<rparr>
       [''newsrc'' \<mapsto> ''old'', ''newsrc.tmp'' \<mapsto> ''stale''] ''newsrc'' ''a: 1-5''
     = (- 1, [''newsrc'' \<mapsto> ''old'', ''newsrc.tmp'' \<mapsto> ''stale''])
   \<and> update_file \<lparr>fopen_ok = True, fputs_ok = False, fclose_ok = True, rename_ok = True,
                 unlink_ok = False, tmp_content = ''a: 1''\<rparr>
       [''newsrc'' \<mapsto> ''old''] ''newsrc'' ''a: 1-5''
     = (- 1, [''newsrc'' \<mapsto> ''old'', ''newsrc.tmp'' \<mapsto> ''a: 1''])"
  by (simp add: update_file_def unlink_def snprintf_def PATH_MAX_def Let_def)

subsection \<open>Printing and scanning numbers\<close>

lemma isdigit_char_of: "d < 10 \<Longrightarrow> isdigit (char_of (48 + d :: nat))"
  by (simp add: isdigit_def)

lemma digit_val_char_of: "d < 10 \<Longrightarrow> (of_char (char_of (48 + d :: nat)) :: nat) - 48 = d"
  by simp

lemma dec_nat_digits: "c \<in> set (dec_nat n) \<Longrightarrow> isdigit c"
proof (induction n arbitrary: c rule: dec_nat.induct)
  case (1 n)
  show ?case
  proof (cases "n < 10")
    case True
    then show ?thesis using "1.prems" by (simp add: dec_nat.simps [of n] isdigit_char_of)
  next
    case False
    then show ?thesis
      using "1.prems" "1.IH" by (auto simp: dec_nat.simps [of n] isdigit_char_of)
  qed
qed

lemma dec_nat_nonempty: "dec_nat n \<noteq> []"
  by (subst dec_nat.simps) simp

lemma digits_val_snoc:
  "digits_val (ds @ [c]) = digits_val ds * 10 + ((of_char c :: nat) - 48)"
  by (simp add: digits_val_def)

lemma digits_val_dec_nat: "digits_val (dec_nat n) = n"
proof (induction n rule: dec_nat.induct)
  case (1 n)
  show ?case
  proof (cases "n < 10")
    case True
    then show ?thesis by (simp add: dec_nat.simps [of n] digits_val_def)
  next
    case False
    then show ?thesis
      using "1.IH" by (simp add: dec_nat.simps [of n] digits_val_snoc)
  qed
qed

lemma isdigit_not_space: "isdigit c \<Longrightarrow> \<not> isspace c"
  by (auto simp: isdigit_def isspace_def)

lemma isdigit_not_sign: "isdigit c \<Longrightarrow> c \<noteq> CHR ''-'' \<and> c \<noteq> CHR ''+'' \<and> c \<noteq> CHR '','' \<and> c \<noteq> CHR '':'' \<and> c \<noteq> CHR ''!''"
  by (auto simp: isdigit_def)

lemma span_prefix:
  assumes "\<forall>x \<in> set xs. P x" and "ys = [] \<or> \<not> P (hd ys)"
  shows "takeWhile P (xs @ ys) = xs" and "dropWhile P (xs @ ys) = ys"
  using assms by (induction xs) (auto simp: takeWhile_eq_Nil_iff dropWhile_eq_self_iff)

lemmas scan_eval = sscanf_anum_def sscanf_anum2_def sscanf_anum_c_def scan_anum_def
  isspace_def isdigit_def digits_val_def Let_def

lemma scan_anum_dec_nat:
  assumes ws: "\<forall>c \<in> set ws. isspace c" and rest: "rest = [] \<or> \<not> isdigit (hd rest)"
    and n: "n < 2 ^ 64"
  shows "scan_anum (ws @ dec_nat n @ rest) = Some (of_nat n, rest)"
proof -
  obtain d ds where d: "dec_nat n = d # ds"
    using dec_nat_nonempty [of n] by (cases "dec_nat n") auto
  have dig: "\<forall>c \<in> set (d # ds). isdigit c"
    using dec_nat_digits [of _ n] by (simp add: d)
  have s1: "dropWhile isspace (ws @ dec_nat n @ rest) = d # ds @ rest"
    using ws dig by (simp add: d dropWhile_append isdigit_not_space)
  have tk: "takeWhile isdigit ((d # ds) @ rest) = d # ds"
    using dig rest by (rule span_prefix)
  have dr: "dropWhile isdigit ((d # ds) @ rest) = rest"
    using dig rest by (rule span_prefix)
  have sg: "d \<noteq> CHR ''-''" "d \<noteq> CHR ''+''"
    using dig isdigit_not_sign [of d] by simp_all
  show ?thesis
    unfolding scan_anum_def s1
    using sg tk dr n digits_val_dec_nat [of n] by (simp add: Let_def d)
qed

lemma scan_anum_dec:
  assumes "\<forall>c \<in> set ws. isspace c" and "rest = [] \<or> \<not> isdigit (hd rest)"
  shows "scan_anum (ws @ dec w @ rest) = Some (w, rest)"
proof -
  have "unat w < 2 ^ 32" using unsigned_less [of w, where ?'a = nat] by simp
  then have "unat w < 2 ^ 64" by simp
  from scan_anum_dec_nat [OF assms this] show ?thesis by (simp add: dec_def)
qed


lemma strchr_split: "c \<notin> set xs \<Longrightarrow> strchr (xs @ c # ys) c = Some (xs, ys)"
  by (induction xs) auto

lemma strchr_none: "c \<notin> set xs \<Longrightarrow> strchr xs c = None"
  by (induction xs) auto

lemma strpbrk_split:
  "set xs \<inter> set accept = {} \<Longrightarrow> m \<in> set accept \<Longrightarrow>
     strpbrk (xs @ m # ys) accept = Some (xs, m, ys)"
  by (induction xs) auto

lemma strpbrk_none: "set xs \<inter> set accept = {} \<Longrightarrow> strpbrk xs accept = None"
  by (induction xs) auto

lemma dec_no_char: "\<not> isdigit c \<Longrightarrow> c \<notin> set (dec w)"
  using dec_nat_digits [of c "unat w"] by (auto simp: dec_def)

subsection \<open>Writing a line and parsing it again\<close>

lemma parse_entry_entry_str:
  assumes v: "valid_entry e" and ws: "ws = [] \<or> ws = '' ''" and t: "t = [] \<or> t = [CHR 0x0A]"
  shows "parse_entry (ws @ entry_str e @ t) acc = acc @ [e]"
proof -
  obtain f l where e: "e = (f, l)" by (cases e)
  have wsp: "\<forall>c \<in> set ws. isspace c" using ws by (auto simp: isspace_def)
  have wsm: "CHR ''-'' \<notin> set ws" using ws by auto
  have tm: "CHR ''-'' \<notin> set t" using t by auto
  have tr: "t = [] \<or> \<not> isdigit (hd t)" using t by (auto simp: isdigit_def)
  have nd: "\<not> isdigit (CHR ''-'')" by (simp add: isdigit_def)
  show ?thesis
  proof (cases "f = l")
    case True
    have "strchr (ws @ dec f @ t) (CHR ''-'') = None"
      using wsm tm dec_no_char [OF nd, of f] by (intro strchr_none) simp
    moreover have "sscanf_anum (ws @ dec f @ t) = Some f"
      using scan_anum_dec [OF wsp tr, of f] by (simp add: sscanf_anum_def)
    ultimately show ?thesis
      using True by (simp add: parse_entry_def entry_str_def e)
  next
    case False
    then have lt: "f < l" using v by (simp add: valid_entry_def e)
    have "strchr ((ws @ dec f) @ CHR ''-'' # (dec l @ t)) (CHR ''-'') = Some (ws @ dec f, dec l @ t)"
      using wsm dec_no_char [OF nd, of f] by (intro strchr_split) simp
    moreover have "sscanf_anum (ws @ dec f) = Some f"
      using scan_anum_dec [OF wsp, of "[]" f] by (simp add: sscanf_anum_def)
    moreover have "sscanf_anum (dec l @ t) = Some l"
      using scan_anum_dec [of "[]" t l] tr by (simp add: sscanf_anum_def)
    ultimately show ?thesis
      using False lt by (simp add: parse_entry_def entry_str_def e)
  qed
qed

lemma entry_str_no_comma: "CHR '','' \<notin> set (entry_str e)"
proof -
  have "\<not> isdigit (CHR '','')" by (simp add: isdigit_def)
  then show ?thesis
    using dec_no_char [of "CHR '',''"] by (auto simp: entry_str_def)
qed

lemma parse_entries_entries_str:
  assumes "\<forall>e \<in> set (e # es). valid_entry e" and "ws = [] \<or> ws = '' ''"
  shows "parse_entries (ws @ entry_str e @ entries_str (Suc j) es @ [CHR 0x0A]) acc = acc @ e # es"
  using assms
proof (induction es arbitrary: e ws j acc)
  case Nil
  have "CHR '','' \<notin> set (ws @ entry_str e @ [CHR 0x0A])"
    using Nil.prems(2) entry_str_no_comma [of e] by auto
  then have "strchr (ws @ entry_str e @ [CHR 0x0A]) (CHR '','') = None"
    by (rule strchr_none)
  then show ?case
    using parse_entry_entry_str [of e ws "[CHR 0x0A]" acc] Nil.prems
    by (simp add: parse_entries.simps [of "ws @ entry_str e @ [CHR 0x0A]"])
next
  case (Cons e' es)
  let ?rest = "entry_str e' @ entries_str (Suc (Suc j)) es @ [CHR 0x0A]"
  have "CHR '','' \<notin> set (ws @ entry_str e)"
    using Cons.prems(2) entry_str_no_comma [of e] by auto
  then have sp: "strchr ((ws @ entry_str e) @ CHR '','' # ?rest) (CHR '','') = Some (ws @ entry_str e, ?rest)"
    by (rule strchr_split)
  have pe: "parse_entry (ws @ entry_str e) acc = acc @ [e]"
    using parse_entry_entry_str [of e ws "[]" acc] Cons.prems by simp
  have IH: "parse_entries ([] @ ?rest) (acc @ [e]) = (acc @ [e]) @ e' # es"
    using Cons.prems(1) by (intro Cons.IH) simp_all
  have str: "ws @ entry_str e @ entries_str (Suc j) (e' # es) @ [CHR 0x0A]
               = (ws @ entry_str e) @ CHR '','' # ?rest"
    by simp
  show ?case
    unfolding str
    by (subst parse_entries.simps) (simp add: sp pe IH [simplified] del: append_assoc)
qed

lemma unread_stat_fields [simp]:
  "newsrc_ent (nntp_group_unread_stat mdata) = newsrc_ent mdata"
  "subscribed (nntp_group_unread_stat mdata) = subscribed mdata"
  "group (nntp_group_unread_stat mdata) = group mdata"
  by (simp_all add: nntp_group_unread_stat_def)

lemma mdata_find_found:
  assumes "\<forall>i. groups_hash adata name = Some i \<longrightarrow> mdata_get adata i \<noteq> None"
    and "mdata_find adata name = (adata1, i)"
  shows "groups_hash adata1 name = Some i" and "mdata_get adata1 i \<noteq> None"
  using assms
  by (auto simp: mdata_find_def Let_def mdata_get_def split: option.splits if_splits)

lemma parse_line_found:
  assumes sp: "strpbrk line '':!'' = Some (name, mk, p)"
    and ok: "\<forall>i. groups_hash adata name = Some i \<longrightarrow> mdata_get adata i \<noteq> None"
  shows "map_option (\<lambda>md. (newsrc_ent md, subscribed md)) (mutt_hash_find (parse_line adata line) name)
           = Some (Some (if parse_entries p [] = [] then [(1, 0)] else parse_entries p []),
                   mk = CHR '':'')"
proof -
  obtain adata1 i where mf: "mdata_find adata name = (adata1, i)"
    by (cases "mdata_find adata name") auto
  note f = mdata_find_found [OF ok mf]
  obtain md where md: "mdata_get adata1 i = Some md" using f(2) by auto
  show ?thesis
    using f(1) md
    by (simp add: parse_line_def sp mf Let_def mutt_hash_find_def groups_hash_modify
        mdata_get_modify)
qed

lemma newsrc_line_split:
  assumes "CHR '':'' \<notin> set (group mdata)" and "CHR ''!'' \<notin> set (group mdata)"
  shows "strpbrk (newsrc_line mdata) '':!'' =
           Some (group mdata, if subscribed mdata then CHR '':'' else CHR ''!'',
                 '' '' @ entries_str 0 (newsrc_list mdata) @ [CHR 0x0A])"
proof -
  have "set (group mdata) \<inter> set '':!'' = {}" using assms by auto
  then have "strpbrk (group mdata @ (if subscribed mdata then CHR '':'' else CHR ''!'')
                # ('' '' @ entries_str 0 (newsrc_list mdata) @ [CHR 0x0A])) '':!''
      = Some (group mdata, if subscribed mdata then CHR '':'' else CHR ''!'',
                 '' '' @ entries_str 0 (newsrc_list mdata) @ [CHR 0x0A])"
    by (rule strpbrk_split) simp
  then show ?thesis by (simp add: newsrc_line_def)
qed

lemma sentinel_roundtrip:
  assumes name: "CHR '':'' \<notin> set (group mdata)" "CHR ''!'' \<notin> set (group mdata)"
    and ok: "\<forall>i. groups_hash adata (group mdata) = Some i \<longrightarrow> mdata_get adata i \<noteq> None"
  shows "map_option newsrc_ent
           (mutt_hash_find (parse_line adata (newsrc_line (mdata\<lparr>newsrc_ent := Some [(1, 0)]\<rparr>)))
              (group mdata))
         = Some (Some [(1, 0)])"
proof -
  let ?m = "mdata\<lparr>newsrc_ent := Some [(1, 0)]\<rparr>"
  have sp: "strpbrk (newsrc_line ?m) '':!'' =
           Some (group mdata, if subscribed mdata then CHR '':'' else CHR ''!'',
                 '' '' @ entries_str 0 (newsrc_list ?m) @ [CHR 0x0A])"
    using newsrc_line_split [of ?m] name by simp
  have rng: "'' '' @ entries_str 0 (newsrc_list ?m) @ [CHR 0x0A] = [CHR '' '', CHR 0x0A]"
    by (simp add: newsrc_list_def entry_str_def)
  have pe: "parse_entries [CHR '' '', CHR 0x0A] [] = []"
    by (simp add: parse_entries.simps parse_entry_def scan_eval)
  show ?thesis
    using parse_line_found [OF sp [unfolded rng] ok] pe
    by (cases "mutt_hash_find (parse_line adata (newsrc_line ?m)) (group mdata)") auto
qed

lemma dec_nat_length: "0 < k \<Longrightarrow> n < 10 ^ k \<Longrightarrow> length (dec_nat n) \<le> k"
proof (induction n arbitrary: k rule: dec_nat.induct)
  case (1 n)
  show ?case
  proof (cases "n < 10")
    case True
    then show ?thesis using "1.prems" by (simp add: dec_nat.simps [of n])
  next
    case False
    obtain k' where k: "k = Suc k'" using "1.prems"(1) by (cases k) auto
    have "k' \<noteq> 0" using False "1.prems"(2) k by (cases k') auto
    moreover have "n div 10 < 10 ^ k'"
      using "1.prems"(2) k by (simp add: less_mult_imp_div_less)
    ultimately have "length (dec_nat (n div 10)) \<le> k'"
      using "1.IH" [OF False, of k'] by simp
    then show ?thesis using False k by (simp add: dec_nat.simps [of n])
  qed
qed

lemma dec_length: "length (dec w) \<le> 10"
proof -
  have "unat w < 2 ^ 32" using unsigned_less [of w, where ?'a = nat] by simp
  then have "unat w < 10 ^ 10" by simp
  then show ?thesis unfolding dec_def by (intro dec_nat_length) simp_all
qed

lemma entry_str_length: "length (entry_str e) \<le> 21"
  using dec_length [of "fst e"] dec_length [of "snd e"] by (simp add: entry_str_def)

lemma write_entries_str:
  assumes "length buf < buflen" and "1024 \<le> buflen"
  shows "snd (write_entries (buflen, buf) j es) = buf @ entries_str j es
       \<and> length (buf @ entries_str j es) < fst (write_entries (buflen, buf) j es)
       \<and> (es \<noteq> [] \<longrightarrow>
            length (buf @ entries_str j es) + 1 < fst (write_entries (buflen, buf) j es))
       \<and> buflen \<le> fst (write_entries (buflen, buf) j es)"
  using assms
proof (induction es arbitrary: buflen buf j)
  case Nil
  then show ?case by simp
next
  case (Cons e es)
  define buflen1 where "buflen1 = (if length buf + 1024 > buflen then buflen * 2 else buflen)"
  define buf1 where "buf1 = (if j \<noteq> 0 then buf @ '','' else buf)"
  have room: "length buf + 1024 \<le> buflen1"
    using Cons.prems by (simp add: buflen1_def)
  have l1: "length buf1 \<le> length buf + 1" by (simp add: buf1_def)
  have "length (entry_str e) \<le> buflen1 - length buf1 - 1"
    using room l1 entry_str_length [of e] by simp
  then have pr: "snprintf (buflen1 - length buf1) (entry_str e) = entry_str e"
    by (simp add: snprintf_def)
  have unf: "write_entries (buflen, buf) j (e # es)
      = write_entries (buflen1, buf1 @ entry_str e) (Suc j) es"
    by (simp only: write_entries.simps Let_def buflen1_def [symmetric] buf1_def [symmetric] pr)
  have a: "length (buf1 @ entry_str e) < buflen1"
    using room l1 entry_str_length [of e] by simp
  have b: "1024 \<le> buflen1" using Cons.prems by (simp add: buflen1_def)
  have c: "buflen \<le> buflen1" by (simp add: buflen1_def)
  have d: "(buf1 @ entry_str e) @ entries_str (Suc j) es = buf @ entries_str j (e # es)"
    by (simp add: buf1_def)
  have a': "length (buf1 @ entry_str e) + 1 < buflen1"
    using room l1 entry_str_length [of e] by simp
  show ?case
  proof (cases "es = []")
    case True
    then show ?thesis
      unfolding unf using a a' c d by simp
  next
    case False
    then show ?thesis
      unfolding unf using Cons.IH [OF a b, of "Suc j"] c d by simp
  qed
qed

lemma write_name_room:
  assumes "length buf < buflen"
  shows "length (snd (write_name (buflen, buf) mdata)) < fst (write_name (buflen, buf) mdata)"
    and "buflen \<le> fst (write_name (buflen, buf) mdata)"
  using assms by (auto simp: write_name_def snprintf_def Let_def)

lemma write_name_full:
  assumes "length buf + length (group mdata) + 3 \<le> 2 * buflen"
  shows "snd (write_name (buflen, buf) mdata)
           = buf @ group mdata @ [if subscribed mdata then CHR '':'' else CHR ''!''] @ '' ''"
  using assms by (auto simp: write_name_def snprintf_def Let_def)

lemma write_name_cut:
  assumes "2 * buflen < length buf + length (group mdata) + 3"
  shows "snd (write_name (buflen, buf) mdata)
           = buf @ take (buflen * 2 - length buf - 1)
                     (group mdata @ [if subscribed mdata then CHR '':'' else CHR ''!''] @ '' '')"
  using assms by (auto simp: write_name_def snprintf_def Let_def)

lemma write_group_line:
  assumes "length buf < buflen" and "1024 \<le> buflen"
    and "length buf + length (group mdata) + 3 \<le> 2 * buflen"
  shows "snd (write_group (buflen, buf) mdata)
           = buf @ group mdata @ [if subscribed mdata then CHR '':'' else CHR ''!''] @ '' ''
               @ entries_str 0 (newsrc_list mdata) @ [CHR 0x0A]"
    and "length (snd (write_group (buflen, buf) mdata)) \<le> fst (write_group (buflen, buf) mdata)"
    and "buflen \<le> fst (write_group (buflen, buf) mdata)"
proof -
  obtain bl1 b1 where wn: "write_name (buflen, buf) mdata = (bl1, b1)"
    by (cases "write_name (buflen, buf) mdata") auto
  have r: "length b1 < bl1" "buflen \<le> bl1"
    using write_name_room [OF assms(1), of mdata] by (simp_all add: wn)
  have f: "b1 = buf @ group mdata @ [if subscribed mdata then CHR '':'' else CHR ''!''] @ '' ''"
    using write_name_full [OF assms(3)] by (simp add: wn)
  have k: "1024 \<le> bl1" using r(2) assms(2) by simp
  obtain bl2 b2 where we: "write_entries (bl1, b1) 0 (newsrc_list mdata) = (bl2, b2)"
    by (cases "write_entries (bl1, b1) 0 (newsrc_list mdata)") auto
  note e = write_entries_str [OF r(1) k, of 0 "newsrc_list mdata", unfolded we]
  have wg: "write_group (buflen, buf) mdata = (bl2, b2 @ [CHR 0x0A])"
    by (simp add: write_group_def wn we)
  show "snd (write_group (buflen, buf) mdata)
           = buf @ group mdata @ [if subscribed mdata then CHR '':'' else CHR ''!''] @ '' ''
               @ entries_str 0 (newsrc_list mdata) @ [CHR 0x0A]"
    using e by (simp add: wg f)
  show "length (snd (write_group (buflen, buf) mdata)) \<le> fst (write_group (buflen, buf) mdata)"
    using e by (simp add: wg)
  show "buflen \<le> fst (write_group (buflen, buf) mdata)"
    using e r(2) by (simp add: wg)
qed

lemma write_group_room:
  assumes "length buf < buflen" and "1024 \<le> buflen" and "newsrc_list mdata \<noteq> []"
  shows "length (snd (write_group (buflen, buf) mdata)) < fst (write_group (buflen, buf) mdata)"
    and "buflen \<le> fst (write_group (buflen, buf) mdata)"
proof -
  obtain bl1 b1 where wn: "write_name (buflen, buf) mdata = (bl1, b1)"
    by (cases "write_name (buflen, buf) mdata") auto
  have r: "length b1 < bl1" "buflen \<le> bl1"
    using write_name_room [OF assms(1), of mdata] by (simp_all add: wn)
  have k: "1024 \<le> bl1" using r(2) assms(2) by simp
  obtain bl2 b2 where we: "write_entries (bl1, b1) 0 (newsrc_list mdata) = (bl2, b2)"
    by (cases "write_entries (bl1, b1) 0 (newsrc_list mdata)") auto
  note e = write_entries_str [OF r(1) k, of 0 "newsrc_list mdata", unfolded we]
  have wg: "write_group (buflen, buf) mdata = (bl2, b2 @ [CHR 0x0A])"
    by (simp add: write_group_def wn we)
  show "length (snd (write_group (buflen, buf) mdata)) < fst (write_group (buflen, buf) mdata)"
    using e assms(3) by (simp add: wg)
  show "buflen \<le> fst (write_group (buflen, buf) mdata)"
    using e r(2) by (simp add: wg)
qed

lemma newsrc_buf_room:
  assumes "length (snd b) < fst b" and "1024 \<le> fst b"
    and "\<forall>mdata. Some mdata \<in> set gs \<longrightarrow> newsrc_ent mdata \<noteq> Some []"
  shows "length (snd (newsrc_buf b gs)) < fst (newsrc_buf b gs) \<and> 1024 \<le> fst (newsrc_buf b gs)"
  using assms
proof (induction b gs rule: newsrc_buf.induct)
  case (1 b)
  then show ?case by simp
next
  case (2 b gs)
  then show ?case by simp
next
  case (3 b mdata gs)
  show ?case
  proof (cases "newsrc_ent mdata = None")
    case True
    then show ?thesis using 3 by simp
  next
    case False
    obtain buflen buf where b: "b = (buflen, buf)" by (cases b)
    have ne: "newsrc_list mdata \<noteq> []"
      using False "3.prems"(3) by (cases "newsrc_ent mdata") (auto simp: newsrc_list_def)
    have "length buf < buflen" "1024 \<le> buflen" using "3.prems"(1,2) by (simp_all add: b)
    from write_group_room [OF this ne]
    have "length (snd (write_group b mdata)) < fst (write_group b mdata)"
      "1024 \<le> fst (write_group b mdata)"
      using \<open>1024 \<le> buflen\<close> by (simp_all add: b)
    moreover have "newsrc_buf b (Some mdata # gs) = newsrc_buf (write_group b mdata) gs"
      by (simp add: False)
    ultimately show ?thesis
      using "3.IH"(2) [OF False] "3.prems"(3) by simp
  qed
qed

text \<open>
  C2. Take a group whose entry array is allocated, so that it holds at least one
  entry, with \<open>first \<le> last\<close> in every entry and a name without \<^verbatim>\<open>':'\<close> and
  \<^verbatim>\<open>'!'\<close>. The range text that \<^verbatim>\<open>nntp_newsrc_update\<close> writes for it (single
  numbers for \<open>first = last\<close>, \<^verbatim>\<open>first-last\<close> otherwise, commas between) is parsed
  back by the token loop of \<^verbatim>\<open>nntp_newsrc_parse\<close> into the same entries in the same
  order, adjacent and overlapping entries included. Let the group be written into a
  buffer of at least 1024 bytes that is not yet full (the buffer starts with 10240
  bytes and stays that way from one group to the next), in which the name fits once
  the size has been doubled: for the first group of the file, a name of at most 20477
  characters. Then what the update appends to the buffer for the group is its line in
  the format of the specification, none of it cut, and the buffer is again not full;
  and parsing that line leaves the group of that name with these entries and the same
  subscribed flag. A group without an entry array writes nothing, and the single
  entry (1, 0) that stands for the empty set is written as an empty range text and
  parsed back as (1, 0).
\<close>

theorem C2_serialize_parse_roundtrip:
  assumes ents: "newsrc_ent mdata = Some ents" "ents \<noteq> []" "\<forall>e \<in> set ents. fst e \<le> snd e"
    and name: "CHR '':'' \<notin> set (group mdata)" "CHR ''!'' \<notin> set (group mdata)"
    and ok: "\<forall>i. groups_hash adata (group mdata) = Some i \<longrightarrow> mdata_get adata i \<noteq> None"
    and room: "length buf < buflen" "1024 \<le> buflen"
      "length buf + length (group mdata) + 3 \<le> 2 * buflen"
  shows "parse_entries ('' '' @ entries_str 0 ents @ [CHR 0x0A]) [] = ents
       \<and> snd (write_group (buflen, buf) mdata) = buf @ newsrc_line mdata
       \<and> length (snd (write_group (buflen, buf) mdata)) < fst (write_group (buflen, buf) mdata)
       \<and> map_option (\<lambda>md. (newsrc_ent md, subscribed md))
            (mutt_hash_find (parse_line adata (newsrc_line mdata)) (group mdata))
           = Some (Some ents, subscribed mdata)
       \<and> newsrc_buf (buflen, buf) [Some mdata] = write_group (buflen, buf) mdata
       \<and> newsrc_buf (buflen, buf) [Some (mdata\<lparr>newsrc_ent := None\<rparr>)] = (buflen, buf)
       \<and> snd (write_group (buflen, buf) (mdata\<lparr>newsrc_ent := Some [(1, 0)]\<rparr>))
           = buf @ group mdata @ [if subscribed mdata then CHR '':'' else CHR ''!'']
               @ [CHR '' '', CHR 0x0A]
       \<and> map_option newsrc_ent
            (mutt_hash_find
               (parse_line adata
                  (group mdata @ [if subscribed mdata then CHR '':'' else CHR ''!'']
                     @ [CHR '' '', CHR 0x0A]))
               (group mdata))
           = Some (Some [(1, 0)])"
proof -
  obtain e es where es: "ents = e # es" using ents(2) by (cases ents) auto
  have "\<forall>x \<in> set (e # es). valid_entry x" using ents(3) by (simp add: es valid_entry_def)
  then have "parse_entries ('' '' @ entry_str e @ entries_str (Suc 0) es @ [CHR 0x0A]) [] = [] @ e # es"
    by (rule parse_entries_entries_str) simp
  then have rt: "parse_entries ('' '' @ entries_str 0 ents @ [CHR 0x0A]) [] = ents"
    by (simp add: es)
  have nl: "newsrc_list mdata = ents" by (simp add: newsrc_list_def ents(1))
  have wr: "snd (write_group (buflen, buf) mdata) = buf @ newsrc_line mdata"
    using write_group_line(1) [OF room] by (simp add: newsrc_line_def)
  have rm: "length (snd (write_group (buflen, buf) mdata)) < fst (write_group (buflen, buf) mdata)"
    using room(1,2) by (rule write_group_room) (simp add: nl ents(2))
  have pl: "map_option (\<lambda>md. (newsrc_ent md, subscribed md))
            (mutt_hash_find (parse_line adata (newsrc_line mdata)) (group mdata))
           = Some (Some ents, subscribed mdata)"
    using rt ents(2) parse_line_found [OF newsrc_line_split [OF name] ok]
    by (cases "subscribed mdata") (simp_all add: nl)
  let ?m = "mdata\<lparr>newsrc_ent := Some [(1, 0)]\<rparr>"
  have sl: "newsrc_line ?m
      = group mdata @ [if subscribed mdata then CHR '':'' else CHR ''!''] @ [CHR '' '', CHR 0x0A]"
    by (simp add: newsrc_line_def newsrc_list_def entry_str_def)
  have room': "length buf + length (group ?m) + 3 \<le> 2 * buflen" using room(3) by simp
  have ws: "snd (write_group (buflen, buf) ?m)
      = buf @ group mdata @ [if subscribed mdata then CHR '':'' else CHR ''!'']
               @ [CHR '' '', CHR 0x0A]"
    using write_group_line(1) [OF room(1,2) room'] sl by (simp add: newsrc_line_def)
  have ps: "map_option newsrc_ent
            (mutt_hash_find
               (parse_line adata
                  (group mdata @ [if subscribed mdata then CHR '':'' else CHR ''!'']
                     @ [CHR '' '', CHR 0x0A]))
               (group mdata))
           = Some (Some [(1, 0)])"
    using sentinel_roundtrip [OF name ok] by (simp only: sl)
  show ?thesis
    using rt wr rm pl ws ps ents(1) by simp
qed


theorem C2_serialize_parse_roundtrip_witness:
  "snd (newsrc_buf (10240, []) [Some ((new_mdata ''alt.test'')\<lparr>subscribed := True,
        newsrc_ent := Some [(1, 2), (3, 4), (3, 7), (9, 9)]\<rparr>)])
     = ''alt.test: 1-2,3-4,3-7,9'' @ [CHR 0x0A]
   \<and> map_option (\<lambda>md. (newsrc_ent md, subscribed md))
        (mutt_hash_find (parse_line empty_account (''alt.test: 1-2,3-4,3-7,9'' @ [CHR 0x0A]))
           ''alt.test'')
     = Some (Some [(1, 2), (3, 4), (3, 7), (9, 9)], True)"
proof -
  let ?m = "(new_mdata ''alt.test'')\<lparr>subscribed := True,
        newsrc_ent := Some [(1, 2), (3, 4), (3, 7), (9, 9)]\<rparr>"
  have line: "newsrc_line ?m = ''alt.test: 1-2,3-4,3-7,9'' @ [CHR 0x0A]"
    by code_simp
  have h1: "newsrc_ent ?m = Some [(1, 2), (3, 4), (3, 7), (9, 9)]" by simp
  have h2: "[(1, 2), (3, 4), (3, 7), (9, 9)] \<noteq> ([] :: NewsrcEntry list)" by simp
  have h3: "\<forall>e \<in> set [(1, 2), (3, 4), (3, 7), (9, 9 :: anum_t)]. fst e \<le> (snd e :: anum_t)"
    by simp
  have h4: "CHR '':'' \<notin> set (group ?m)" "CHR ''!'' \<notin> set (group ?m)"
    by (simp_all add: new_mdata_def)
  have h5: "\<forall>i. groups_hash empty_account (group ?m) = Some i \<longrightarrow> mdata_get empty_account i \<noteq> None"
    by (simp add: empty_account_def)
  have h6: "length ([] :: string) < 10240" "(1024 :: nat) \<le> 10240"
    "length ([] :: string) + length (group ?m) + 3 \<le> 2 * 10240"
    by (simp_all add: new_mdata_def)
  note rt = C2_serialize_parse_roundtrip [OF h1 h2 h3 h4 h5 h6]
  have a: "snd (newsrc_buf (10240, []) [Some ?m]) = ''alt.test: 1-2,3-4,3-7,9'' @ [CHR 0x0A]"
    using rt line by simp
  have c: "map_option (\<lambda>md. (newsrc_ent md, subscribed md))
        (mutt_hash_find (parse_line empty_account (''alt.test: 1-2,3-4,3-7,9'' @ [CHR 0x0A]))
           ''alt.test'')
     = Some (Some [(1, 2), (3, 4), (3, 7), (9, 9)], True)"
    using rt line by (simp add: new_mdata_def)
  show ?thesis
    using a c by simp
qed

subsection \<open>Malformed lines and tokens\<close>

lemma parse_entry_fails: "token_fails b \<Longrightarrow> parse_entry b ents = ents"
  by (auto simp: token_fails_def parse_entry_def split: option.splits)

text \<open>
  C6. No line makes the parse fail: whatever the lines are, a file whose fingerprint
  differs is parsed with the result 1. A line with neither \<^verbatim>\<open>':'\<close> nor \<^verbatim>\<open>'!'\<close>
  changes nothing, and the lines after it are parsed as if it were not there. A range
  token that does not parse is dropped, wherever it stands: the tokens before and
  after it are kept. A group line whose tokens all fail leaves its group with the
  single entry (1, 0).
\<close>

theorem C6_malformed_input_skipped:
  "(CHR '':'' \<notin> set line \<and> CHR ''!'' \<notin> set line \<longrightarrow>
      parse_line adata line = adata
      \<and> foldl parse_line adata (ls1 @ line # ls2) = foldl parse_line adata (ls1 @ ls2))
   \<and> (size adata \<noteq> st_size \<or> mtime adata \<noteq> st_mtime \<longrightarrow>
        fst (nntp_newsrc_parse (Opened st_size st_mtime lines) adata) = 1)
   \<and> (token_fails b \<and> CHR '','' \<notin> set b \<longrightarrow>
        parse_entries b ents = ents
        \<and> parse_entries (b @ CHR '','' # p) ents = parse_entries p ents
        \<and> (CHR '','' \<notin> set q \<longrightarrow> parse_entries (q @ CHR '','' # b) ents = parse_entry q ents))
   \<and> (strpbrk gline '':!'' = Some (name, mk, p') \<and> parse_entries p' [] = []
        \<and> (\<forall>i. groups_hash adata name = Some i \<longrightarrow> mdata_get adata i \<noteq> None) \<longrightarrow>
        map_option newsrc_ent (mutt_hash_find (parse_line adata gline) name) = Some (Some [(1, 0)]))"
proof (intro conjI impI)
  assume "CHR '':'' \<notin> set line \<and> CHR ''!'' \<notin> set line"
  then have "set line \<inter> set '':!'' = {}" by auto
  then have "strpbrk line '':!'' = None" by (rule strpbrk_none)
  then show skip: "parse_line adata line = adata" for adata
    by (simp add: parse_line_def)
  show "foldl parse_line adata (ls1 @ line # ls2) = foldl parse_line adata (ls1 @ ls2)"
    by (simp add: skip)
next
  assume "size adata \<noteq> st_size \<or> mtime adata \<noteq> st_mtime"
  then show "fst (nntp_newsrc_parse (Opened st_size st_mtime lines) adata) = 1"
    by (auto simp: nntp_newsrc_parse_def Let_def)
next
  assume a: "token_fails b \<and> CHR '','' \<notin> set b"
  then have none: "strchr b (CHR '','') = None" by (simp add: strchr_none)
  show "parse_entries b ents = ents"
    using a by (subst parse_entries.simps) (simp add: none parse_entry_fails)
  have "strchr (b @ CHR '','' # p) (CHR '','') = Some (b, p)"
    using a by (simp add: strchr_split)
  then show "parse_entries (b @ CHR '','' # p) ents = parse_entries p ents"
    using a by (subst parse_entries.simps) (simp add: parse_entry_fails)
  show "parse_entries (q @ CHR '','' # b) ents = parse_entry q ents" if "CHR '','' \<notin> set q"
  proof -
    have "strchr (q @ CHR '','' # b) (CHR '','') = Some (q, b)"
      using that by (simp add: strchr_split)
    then have "parse_entries (q @ CHR '','' # b) ents = parse_entries b (parse_entry q ents)"
      by (subst parse_entries.simps) simp
    also have "\<dots> = parse_entry q ents"
      using a by (subst parse_entries.simps) (simp add: none parse_entry_fails)
    finally show ?thesis .
  qed
next
  assume "strpbrk gline '':!'' = Some (name, mk, p') \<and> parse_entries p' [] = []
        \<and> (\<forall>i. groups_hash adata name = Some i \<longrightarrow> mdata_get adata i \<noteq> None)"
  then show "map_option newsrc_ent (mutt_hash_find (parse_line adata gline) name) = Some (Some [(1, 0)])"
    using parse_line_found [of gline name mk p' adata]
    by (auto simp: map_option_case split: option.splits)
qed

theorem C6_malformed_input_skipped_witness:
  "parse_line empty_account ''garbage'' = empty_account
   \<and> fst (nntp_newsrc_parse (Opened 26 1 [''garbage'', ''alt.test: abc,x-y'']) empty_account) = 1
   \<and> parse_entries '' abc,5-7'' [] = [(5, 7)]
   \<and> map_option newsrc_ent
        (mutt_hash_find (parse_line empty_account ''alt.test: abc,x-y'') ''alt.test'')
       = Some (Some [(1, 0)])
   \<and> map (map_option (\<lambda>md. (group md, subscribed md, newsrc_ent md)))
        (groups_list (snd (nntp_newsrc_parse
           (Opened 60 1 [''garbage'' @ [CHR 0x0A], ''alt.test: abc,x-y'' @ [CHR 0x0A],
                         ''comp.lang.c! 1-5,zz,7'' @ [CHR 0x0A]]) empty_account)))
       = [Some (''alt.test'', True, Some [(1, 0)]),
          Some (''comp.lang.c'', False, Some [(1, 5), (7, 7)])]"
proof -
  have h1: "CHR '':'' \<notin> set ''garbage'' \<and> CHR ''!'' \<notin> set ''garbage''" by simp
  have h2: "size empty_account \<noteq> 26 \<or> mtime empty_account \<noteq> 1"
    by (simp add: empty_account_def)
  have h3: "token_fails '' abc'' \<and> CHR '','' \<notin> set '' abc''"
    by (simp add: token_fails_def scan_eval)
  have h4: "strpbrk ''alt.test: abc,x-y'' '':!'' = Some (''alt.test'', CHR '':'', '' abc,x-y'')
      \<and> parse_entries '' abc,x-y'' [] = []
      \<and> (\<forall>i. groups_hash empty_account ''alt.test'' = Some i \<longrightarrow> mdata_get empty_account i \<noteq> None)"
    by (simp add: empty_account_def parse_entries.simps parse_entry_def scan_eval)
  have p: "parse_entries ''5-7'' [] = [(5, 7)]"
    by (simp add: parse_entries.simps parse_entry_def scan_eval)
  have full: "map (map_option (\<lambda>md. (group md, subscribed md, newsrc_ent md)))
        (groups_list (snd (nntp_newsrc_parse
           (Opened 60 1 [''garbage'' @ [CHR 0x0A], ''alt.test: abc,x-y'' @ [CHR 0x0A],
                         ''comp.lang.c! 1-5,zz,7'' @ [CHR 0x0A]]) empty_account)))
       = [Some (''alt.test'', True, Some [(1, 0)]),
          Some (''comp.lang.c'', False, Some [(1, 5), (7, 7)])]"
    by (simp add: nntp_newsrc_parse_def empty_account_def parse_line_def mdata_find_def
        mdata_modify_def mdata_get_def mdata_set_def new_mdata_def nntp_group_unread_stat_def
        newsrc_list_def parse_entries.simps parse_entry_def scan_eval)
  show ?thesis
    using C6_malformed_input_skipped [where line = "''garbage''" and adata = empty_account
        and ?ls1.0 = "[]" and ?ls2.0 = "[]" and st_size = 26 and st_mtime = 1
        and lines = "[''garbage'', ''alt.test: abc,x-y'']" and b = "'' abc''" and ents = "[]"
        and p = "''5-7''" and q = "[]" and gline = "''alt.test: abc,x-y''"
        and name = "''alt.test''" and mk = "CHR '':''" and p' = "'' abc,x-y''"]
      h1 h2 h3 h4 p full
    by simp
qed

subsection \<open>Trimming the caches\<close>

lemma nntp_bcache_delete_keep:
  "nntp_bcache_delete ident b (Some mdata) =
     (if bc_keep mdata ident then b else filter (\<lambda>k. k \<noteq> ident) b)"
  by (auto simp: nntp_bcache_delete_def bc_keep_def mutt_bcache_del_def not_less
      split: prod.splits)

lemma bcache_fold:
  "foldl (\<lambda>b ident. nntp_bcache_delete ident b (Some mdata)) acc ids
     = filter (\<lambda>k. k \<notin> set ids \<or> bc_keep mdata k) acc"
proof (induction ids arbitrary: acc)
  case Nil
  then show ?case by simp
next
  case (Cons i ids)
  have "foldl (\<lambda>b ident. nntp_bcache_delete ident b (Some mdata)) acc (i # ids)
      = filter (\<lambda>k. k \<notin> set ids \<or> bc_keep mdata k) (nntp_bcache_delete i acc (Some mdata))"
    by (simp only: foldl.simps Cons.IH)
  also have "\<dots> = filter (\<lambda>k. k \<notin> set (i # ids) \<or> bc_keep mdata k) acc"
    by (cases "bc_keep mdata i") (auto simp: nntp_bcache_delete_keep intro!: filter_cong)
  finally show ?case .
qed

lemma nntp_bcache_update_filter:
  "nntp_bcache_update mdata bcache = filter (bc_keep mdata) bcache"
  by (auto simp: nntp_bcache_update_def mutt_bcache_list_def bcache_fold intro!: filter_cong)

lemma scan_dec_plain: "scan_anum (dec w) = Some (w, [])"
  using scan_anum_dec [of "[]" "[]" w] by simp

lemma dec_inj: "dec a = dec b \<Longrightarrow> a = b"
  by (metis scan_dec_plain option.inject prod.inject)

lemma bc_keep_dec:
  "bc_keep mdata (dec n) = (first_message mdata \<le> n \<and> n \<le> last_message mdata)"
  by (simp add: bc_keep_def sscanf_anum_c_def scan_dec_plain)

lemma hcache_loop_trim:
  assumes "lst \<noteq> - 1"
  shows "hcache_loop fm lm cur lst hc = Some (hcache_trim fm lm cur lst hc)"
proof (induction "Suc (unat lst) - unat cur" arbitrary: cur hc)
  case 0
  then have "\<not> cur \<le> lst" by (simp add: word_le_nat_alt)
  then have "\<not> (cur \<le> n \<and> n \<le> lst)" for n
    by (meson order_trans)
  then have "hcache_trim fm lm cur lst hc = hc"
    by (auto simp: hcache_trim_def fun_eq_iff)
  then show ?case
    using \<open>\<not> cur \<le> lst\<close> by (subst hcache_loop.simps) simp
next
  case (Suc m)
  then have le: "cur \<le> lst" by (simp add: word_le_nat_alt)
  have "lst < - 1" using assms by (simp add: word_order.not_eq_extremum)
  then have "cur < - 1" using le by simp
  then have inc: "unat (cur + 1) = unat cur + 1" by (rule unat_inc)
  have m: "m = Suc (unat lst) - unat (cur + 1)" using Suc.hyps(2) inc by simp
  let ?hc1 = "if cur \<ge> fm \<and> cur \<le> lm then hc else hc(dec cur := None)"
  have split: "(cur \<le> n) = (n = cur \<or> cur + 1 \<le> n)" for n
    using inc by (auto simp: word_le_nat_alt word_eq_iff_unsigned [where ?'a = nat])
  have "hcache_trim fm lm (cur + 1) lst ?hc1 = hcache_trim fm lm cur lst hc"
  proof (rule ext)
    fix k
    define E where "E c = (\<exists>n. c \<le> n \<and> n \<le> lst \<and> \<not> (fm \<le> n \<and> n \<le> lm) \<and> k = dec n)" for c
    have up: "cur \<le> n" if "cur + 1 \<le> n" for n
      using that split [of n] by simp
    have down: "n = cur \<or> cur + 1 \<le> n" if "cur \<le> n" for n
      using that split [of n] by simp
    have E: "E cur = ((\<not> (fm \<le> cur \<and> cur \<le> lm) \<and> k = dec cur) \<or> E (cur + 1))"
    proof
      assume "E cur"
      then obtain n where n: "cur \<le> n" "n \<le> lst" "\<not> (fm \<le> n \<and> n \<le> lm)" "k = dec n"
        unfolding E_def by blast
      from down [OF n(1)] show "(\<not> (fm \<le> cur \<and> cur \<le> lm) \<and> k = dec cur) \<or> E (cur + 1)"
      proof
        assume "n = cur"
        then show ?thesis using n by simp
      next
        assume "cur + 1 \<le> n"
        then have "E (cur + 1)" unfolding E_def using n by blast
        then show ?thesis by simp
      qed
    next
      assume "(\<not> (fm \<le> cur \<and> cur \<le> lm) \<and> k = dec cur) \<or> E (cur + 1)"
      then show "E cur"
      proof
        assume "\<not> (fm \<le> cur \<and> cur \<le> lm) \<and> k = dec cur"
        then show ?thesis unfolding E_def using le by blast
      next
        assume "E (cur + 1)"
        then obtain n where n: "cur + 1 \<le> n" "n \<le> lst" "\<not> (fm \<le> n \<and> n \<le> lm)" "k = dec n"
          unfolding E_def by blast
        show ?thesis unfolding E_def using up [OF n(1)] n by blast
      qed
    qed
    have l: "hcache_trim fm lm (cur + 1) lst ?hc1 k = (if E (cur + 1) then None else ?hc1 k)"
      by (simp only: hcache_trim_def E_def)
    have r: "hcache_trim fm lm cur lst hc k = (if E cur then None else hc k)"
      by (simp only: hcache_trim_def E_def)
    show "hcache_trim fm lm (cur + 1) lst ?hc1 k = hcache_trim fm lm cur lst hc k"
      unfolding l r E by (cases "fm \<le> cur \<and> cur \<le> lm") auto
  qed
  then show ?case
    using le Suc.hyps(1) [OF m, of ?hc1]
    by (subst hcache_loop.simps) simp
qed

lemma hcache_loop_ends: "hcache_loop fm lm cur lst hc = Some y \<Longrightarrow> lst \<noteq> - 1"
  by (rule hcache_loop.raw_induct [where P = "\<lambda>fm lm cur lst hc y. lst \<noteq> - 1"])
    (auto split: if_splits)

lemma hcache_loop_forever: "hcache_loop fm lm cur (- 1) hc = None"
  using hcache_loop_ends [of fm lm cur "- 1" hc]
  by (cases "hcache_loop fm lm cur (- 1) hc") auto

lemma hcache_update_forever:
  assumes "hc ''index'' = Some hdata" and "sscanf_anum2 hdata = Some (first, - 1)"
  shows "nntp_hcache_update mdata hc = None"
  using assms by (simp add: nntp_hcache_update_def Let_def hcache_loop_forever)

lemma dec_not_index: "dec n \<noteq> ''index''"
proof
  assume "dec n = ''index''"
  then have "CHR ''i'' \<in> set (dec n)" by simp
  moreover have "\<not> isdigit (CHR ''i'')" by (simp add: isdigit_def)
  ultimately show False using dec_no_char by blast
qed

lemma hcache_trim_key:
  "hcache_trim fm lm first lst hc (dec n) =
     (if first \<le> n \<and> n \<le> lst \<and> \<not> (fm \<le> n \<and> n \<le> lm) then None else hc (dec n))"
  by (auto simp: hcache_trim_def dest: dec_inj)

lemma hcache_update_key:
  assumes "hc ''index'' = Some hdata" and "sscanf_anum2 hdata = Some (first, lst)"
    and "lst \<noteq> - 1"
  shows "map_option (\<lambda>r. snd r (dec n)) (nntp_hcache_update mdata hc)
           = Some (if first \<le> n \<and> n \<le> lst
                      \<and> \<not> (first_message mdata \<le> n \<and> n \<le> last_message mdata)
                   then None else hc (dec n))"
proof -
  let ?t = "hcache_trim (first_message mdata) (last_message mdata) first lst hc"
  let ?s = "dec (first_message mdata) @ '' '' @ dec (last_message mdata)"
  have loop: "hcache_loop (first_message mdata) (last_message mdata) first lst hc = Some ?t"
    using assms(3) by (rule hcache_loop_trim)
  have upd: "nntp_hcache_update mdata hc =
      Some (mdata\<lparr>last_cached := lst\<rparr>,
            if (first, lst) \<noteq> (first_message mdata, last_message mdata)
            then ?t(''index'' \<mapsto> ?s) else ?t)"
    by (simp add: nntp_hcache_update_def Let_def assms(1,2) loop)
  have key: "(if c then ?t(''index'' \<mapsto> ?s) else ?t) (dec n) = ?t (dec n)" for c
    using dec_not_index [of n] by auto
  show ?thesis
    unfolding upd by (simp only: option.map snd_conv key hcache_trim_key)
qed

lemma hcache_update_no_index:
  assumes "hc ''index'' = None \<or> (hc ''index'' = Some hdata \<and> sscanf_anum2 hdata = None)"
  shows "map_option (\<lambda>r. snd r (dec n)) (nntp_hcache_update mdata hc) = Some (hc (dec n))"
  using assms dec_not_index [of n]
  by (auto simp: nntp_hcache_update_def Let_def)

lemma dec_examples: "dec 50 = ''50''" "dec 150 = ''150''" "dec 250 = ''250''"
  by code_simp+

lemma scan_index_examples:
  "sscanf_anum2 ''50 250'' = Some (50, 250)" "sscanf_anum2 ''100 200'' = Some (100, 200)"
  "sscanf_anum2 ''50 4294967295'' = Some (50, - 1)"
  by (simp_all add: scan_eval)

text \<open>
  C9, as the code has it. Trimming the body cache deletes the entry with the key
  \<open>n\<close> if and only if \<open>n\<close> lies outside \<^verbatim>\<open>[first_message, last_message]\<close>.
  Trimming the header cache walks the range \<open>[first, lst]\<close> recorded under the key
  \<^verbatim>\<open>index\<close>. When \<open>lst\<close> is below 4294967295, the largest article number, it
  deletes the header \<open>n\<close> if and only if \<open>n\<close> lies in that range and outside the
  window. When \<open>lst\<close> is 4294967295, the counter wraps before it can pass \<open>lst\<close>, the
  loop never ends and the function does not return. Without a recorded range that can
  be read, no header is deleted. With the window [100, 200], the bodies 50 and 250 are
  deleted and 150 is kept, and so are the headers when the recorded range is
  [50, 250]; with the recorded range [50, 4294967295] the function does not return.
\<close>

theorem C9_cache_trim:
  "(dec n \<in> set (nntp_bcache_update mdata bcache))
      = (dec n \<in> set bcache \<and> first_message mdata \<le> n \<and> n \<le> last_message mdata)
   \<and> (hc ''index'' = Some hdata \<and> sscanf_anum2 hdata = Some (first, lst) \<and> lst \<noteq> - 1 \<longrightarrow>
        map_option (\<lambda>r. snd r (dec n)) (nntp_hcache_update mdata hc)
          = Some (if first \<le> n \<and> n \<le> lst
                     \<and> \<not> (first_message mdata \<le> n \<and> n \<le> last_message mdata)
                  then None else hc (dec n)))
   \<and> (hc ''index'' = Some hdata \<and> sscanf_anum2 hdata = Some (first, lst) \<and> lst = - 1 \<longrightarrow>
        nntp_hcache_update mdata hc = None)
   \<and> (hc ''index'' = None \<or> (hc ''index'' = Some hdata \<and> sscanf_anum2 hdata = None) \<longrightarrow>
        map_option (\<lambda>r. snd r (dec n)) (nntp_hcache_update mdata hc) = Some (hc (dec n)))
   \<and> nntp_bcache_update (window 100 200) [''50'', ''150'', ''250''] = [''150'']
   \<and> map_option (\<lambda>r. (snd r ''50'', snd r ''150'', snd r ''250''))
        (nntp_hcache_update (window 100 200)
           [''index'' \<mapsto> ''50 250'', ''50'' \<mapsto> ''h'', ''150'' \<mapsto> ''h'', ''250'' \<mapsto> ''h''])
       = Some (None, Some ''h'', None)
   \<and> nntp_hcache_update (window 100 200) [''index'' \<mapsto> ''50 4294967295'', ''50'' \<mapsto> ''h''] = None"
proof (intro conjI impI)
  show "(dec n \<in> set (nntp_bcache_update mdata bcache))
      = (dec n \<in> set bcache \<and> first_message mdata \<le> n \<and> n \<le> last_message mdata)"
    by (auto simp: nntp_bcache_update_filter bc_keep_dec)
next
  assume "hc ''index'' = Some hdata \<and> sscanf_anum2 hdata = Some (first, lst) \<and> lst \<noteq> - 1"
  then show "map_option (\<lambda>r. snd r (dec n)) (nntp_hcache_update mdata hc)
          = Some (if first \<le> n \<and> n \<le> lst
                     \<and> \<not> (first_message mdata \<le> n \<and> n \<le> last_message mdata)
                  then None else hc (dec n))"
    using hcache_update_key [of hc hdata first lst n mdata] by simp
next
  assume "hc ''index'' = Some hdata \<and> sscanf_anum2 hdata = Some (first, lst) \<and> lst = - 1"
  then show "nntp_hcache_update mdata hc = None"
    using hcache_update_forever [of hc hdata first mdata] by simp
next
  show "nntp_hcache_update (window 100 200) [''index'' \<mapsto> ''50 4294967295'', ''50'' \<mapsto> ''h''] = None"
    by (rule hcache_update_forever [where hdata = "''50 4294967295''" and first = 50])
      (simp_all add: scan_index_examples)
next
  assume "hc ''index'' = None \<or> (hc ''index'' = Some hdata \<and> sscanf_anum2 hdata = None)"
  then show "map_option (\<lambda>r. snd r (dec n)) (nntp_hcache_update mdata hc) = Some (hc (dec n))"
    by (rule hcache_update_no_index)
next
  have "nntp_bcache_update (window 100 200) [dec 50, dec 150, dec 250] = [dec 150]"
    by (simp add: nntp_bcache_update_filter bc_keep_dec window_def)
  then show "nntp_bcache_update (window 100 200) [''50'', ''150'', ''250''] = [''150'']"
    by (simp only: dec_examples)
next
  let ?hc = "[''index'' \<mapsto> ''50 250'', ''50'' \<mapsto> ''h'', ''150'' \<mapsto> ''h'', ''250'' \<mapsto> ''h'']"
  have i: "?hc ''index'' = Some ''50 250''" by simp
  have l: "(250 :: anum_t) \<noteq> - 1" by simp
  have k: "map_option (\<lambda>r. snd r (dec n)) (nntp_hcache_update (window 100 200) ?hc)
           = Some (if 50 \<le> n \<and> n \<le> 250 \<and> \<not> (100 \<le> n \<and> n \<le> 200) then None else ?hc (dec n))"
    for n
    using hcache_update_key [of ?hc "''50 250''" 50 250 n "window 100 200"] i l
    by (simp add: scan_index_examples window_def)
  have "map_option (\<lambda>r. snd r (dec 50)) (nntp_hcache_update (window 100 200) ?hc) = Some None"
    "map_option (\<lambda>r. snd r (dec 150)) (nntp_hcache_update (window 100 200) ?hc) = Some (Some ''h'')"
    "map_option (\<lambda>r. snd r (dec 250)) (nntp_hcache_update (window 100 200) ?hc) = Some None"
    using k [of 50] k [of 150] k [of 250]
    by (simp_all add: dec_examples)
  then show "map_option (\<lambda>r. (snd r ''50'', snd r ''150'', snd r ''250''))
        (nntp_hcache_update (window 100 200) ?hc) = Some (None, Some ''h'', None)"
    by (cases "nntp_hcache_update (window 100 200) ?hc") (simp_all add: dec_examples)
qed

theorem C9_cache_trim_witness:
  "map_option (\<lambda>r. snd r ''50'')
     (nntp_hcache_update (window 100 200) [''index'' \<mapsto> ''50 250'', ''50'' \<mapsto> ''h'']) = Some None
   \<and> map_option (\<lambda>r. snd r ''50'')
     (nntp_hcache_update (window 100 200) [''50'' \<mapsto> ''h'']) = Some (Some ''h'')
   \<and> nntp_hcache_update (window 100 200) [''index'' \<mapsto> ''1 4294967295''] = None"
proof -
  have l: "(250 :: anum_t) \<noteq> - 1" by simp
  have s: "sscanf_anum2 ''1 4294967295'' = Some (1, - 1)" by (simp add: scan_eval)
  have c: "nntp_hcache_update (window 100 200) [''index'' \<mapsto> ''1 4294967295''] = None"
    using C9_cache_trim [of 50 "window 100 200" "[]" "[''index'' \<mapsto> ''1 4294967295'']"
        "''1 4294967295''" 1 "- 1"] s
    by simp
  have a: "map_option (\<lambda>r. snd r (dec 50))
     (nntp_hcache_update (window 100 200) [''index'' \<mapsto> ''50 250'', ''50'' \<mapsto> ''h'']) = Some None"
    using C9_cache_trim [of 50 "window 100 200" "[]" "[''index'' \<mapsto> ''50 250'', ''50'' \<mapsto> ''h'']"
        "''50 250''" 50 250] l
    by (simp add: scan_index_examples window_def)
  have b: "map_option (\<lambda>r. snd r (dec 50))
     (nntp_hcache_update (window 100 200) [''50'' \<mapsto> ''h'']) = Some (Some ''h'')"
    using C9_cache_trim [of 50 "window 100 200" "[]" "[''50'' \<mapsto> ''h'']" "[]" 0 0]
    by (simp add: dec_examples)
  show ?thesis using a b c by (simp add: dec_examples)
qed

text \<open>
  The claim C9 as stated fails for the header cache: with the window [100, 200] and
  the recorded range [100, 200], the headers 50 and 250 are outside the window and
  are kept.
\<close>

theorem C9_stray_headers_counterexample:
  "map_option (\<lambda>r. (snd r ''50'', snd r ''250''))
     (nntp_hcache_update (window 100 200)
        [''index'' \<mapsto> ''100 200'', ''50'' \<mapsto> ''h'', ''250'' \<mapsto> ''h''])
     = Some (Some ''h'', Some ''h'')"
proof -
  let ?hc = "[''index'' \<mapsto> ''100 200'', ''50'' \<mapsto> ''h'', ''250'' \<mapsto> ''h'']"
  have i: "?hc ''index'' = Some ''100 200''" by simp
  have l: "(200 :: anum_t) \<noteq> - 1" by simp
  have k: "map_option (\<lambda>r. snd r (dec n)) (nntp_hcache_update (window 100 200) ?hc)
           = Some (if 100 \<le> n \<and> n \<le> 200 \<and> \<not> (100 \<le> n \<and> n \<le> 200) then None else ?hc (dec n))"
    for n
    using hcache_update_key [of ?hc "''100 200''" 100 200 n "window 100 200"] i l
    by (simp add: scan_index_examples window_def)
  have "map_option (\<lambda>r. snd r (dec 50)) (nntp_hcache_update (window 100 200) ?hc) = Some (Some ''h'')"
    "map_option (\<lambda>r. snd r (dec 250)) (nntp_hcache_update (window 100 200) ?hc) = Some (Some ''h'')"
    using k [of 50] k [of 250]
    by (simp_all add: dec_examples)
  then show ?thesis
    by (cases "nntp_hcache_update (window 100 200) ?hc") (simp_all add: dec_examples)
qed

end
